theory Spec2Isabelle
  imports Main "HOL-Library.Multiset"
begin

section \<open>JavaScript values\<close>

text \<open>
  The service is TypeScript; its declared types are not checked at run time, and the MQTT
  payload is typed \<^verbatim>\<open>any\<close>. Values are therefore modelled dynamically.

  \<^item> \<open>JUndefined\<close> is \<^verbatim>\<open>undefined\<close>, also the value of an absent property.
  \<^item> \<open>JNum t\<close> is a Number, held as the text \<^verbatim>\<open>Number.prototype.toString\<close> gives for it
    (one text per value, \<open>-0\<close> printing as \<open>0\<close>); no arithmetic is done on payload numbers.
  \<^item> \<open>JStr s\<close> is a string, held as its UTF-8 bytes. The model of \<^verbatim>\<open>toLowerCase\<close> maps
    the ASCII letters and leaves other bytes alone; every text the service compares with
    or searches for is ASCII.
  \<^item> \<open>JObj ps\<close> is a plain object, its own enumerable properties listed in enumeration order.
  \<^item> \<open>JBuiltin b\<close> is a member of \<^verbatim>\<open>Object.prototype\<close>, which a property read on an
    object literal reaches through the prototype chain.
\<close>

datatype builtin = ObjectConstructor | ObjectPrototype | ObjectMethod string

datatype js_value =
    JUndefined
  | JNull
  | JBool bool
  | JNum string
  | JStr string
  | JArr "js_value list"
  | JObj "(string \<times> js_value) list"
  | JBuiltin builtin

text \<open>ToBoolean: what \<^verbatim>\<open>!x\<close>, \<^verbatim>\<open>x || y\<close>, \<^verbatim>\<open>x && y\<close> and \<^verbatim>\<open>x ? a : b\<close> test.\<close>

fun truthy :: "js_value \<Rightarrow> bool" where
  "truthy JUndefined = False"
| "truthy JNull = False"
| "truthy (JBool b) = b"
| "truthy (JNum t) = (t \<noteq> ''0'' \<and> t \<noteq> ''NaN'')"
| "truthy (JStr s) = (s \<noteq> [])"
| "truthy (JArr vs) = True"
| "truthy (JObj ps) = True"
| "truthy (JBuiltin b) = True"

subsection \<open>Decimal text of an array length or a status code\<close>

definition digit_char :: "nat \<Rightarrow> char" where
  "digit_char n = ''0123456789abcdef'' ! (n mod 16)"

fun string_of_nat :: "nat \<Rightarrow> string" where
  "string_of_nat n =
     (if n < 10 then [digit_char n] else string_of_nat (n div 10) @ [digit_char (n mod 10)])"

declare string_of_nat.simps [simp del]

subsection \<open>\<^verbatim>\<open>JSON.stringify\<close>\<close>

definition QuoteJSONChar :: "char \<Rightarrow> string" where
  "QuoteJSONChar c =
     (if c = CHR 0x08 then [CHR 0x5C, CHR ''b'']
      else if c = CHR 0x09 then [CHR 0x5C, CHR ''t'']
      else if c = CHR 0x0A then [CHR 0x5C, CHR ''n'']
      else if c = CHR 0x0C then [CHR 0x5C, CHR ''f'']
      else if c = CHR 0x0D then [CHR 0x5C, CHR ''r'']
      else if c = CHR 0x22 then [CHR 0x5C, CHR 0x22]
      else if c = CHR 0x5C then [CHR 0x5C, CHR 0x5C]
      else if (of_char c :: nat) < 0x20
        then [CHR 0x5C, CHR ''u'', CHR ''0'', CHR ''0'',
              digit_char (of_char c div 16), digit_char (of_char c)]
      else [c])"

definition QuoteJSONString :: "string \<Rightarrow> string" where
  "QuoteJSONString s = CHR 0x22 # concat (map QuoteJSONChar s) @ [CHR 0x22]"

fun join :: "string \<Rightarrow> string list \<Rightarrow> string" where
  "join sep [] = []"
| "join sep [x] = x"
| "join sep (x # y # ys) = x @ sep @ join sep (y # ys)"

text \<open>
  \<open>None\<close> is the result \<^verbatim>\<open>undefined\<close>, which \<^verbatim>\<open>JSON.stringify\<close> gives for
  \<^verbatim>\<open>undefined\<close> and for a function. Inside an array such an element is written \<open>null\<close>;
  inside an object the property is left out.
\<close>

fun JSON_stringify :: "js_value \<Rightarrow> string option"
  and SerializeJSONArray :: "js_value list \<Rightarrow> string list"
  and SerializeJSONObject :: "(string \<times> js_value) list \<Rightarrow> string list" where
  "JSON_stringify JUndefined = None"
| "JSON_stringify JNull = Some ''null''"
| "JSON_stringify (JBool b) = Some (if b then ''true'' else ''false'')"
| "JSON_stringify (JNum t) =
     Some (if t = ''NaN'' \<or> t = ''Infinity'' \<or> t = ''-Infinity'' then ''null'' else t)"
| "JSON_stringify (JStr s) = Some (QuoteJSONString s)"
| "JSON_stringify (JArr vs) = Some (''['' @ join '','' (SerializeJSONArray vs) @ '']'')"
| "JSON_stringify (JObj ps) = Some (''{'' @ join '','' (SerializeJSONObject ps) @ ''}'')"
| "JSON_stringify (JBuiltin b) = (if b = ObjectPrototype then Some ''{}'' else None)"
| "SerializeJSONArray [] = []"
| "SerializeJSONArray (v # vs) =
     (case JSON_stringify v of None \<Rightarrow> ''null'' | Some t \<Rightarrow> t) # SerializeJSONArray vs"
| "SerializeJSONObject [] = []"
| "SerializeJSONObject (p # ps) =
     (case JSON_stringify (snd p) of
        None \<Rightarrow> SerializeJSONObject ps
      | Some t \<Rightarrow> (QuoteJSONString (fst p) @ '':'' @ t) # SerializeJSONObject ps)"

text \<open>On an object the result is always a string.\<close>

definition JSON_stringify_object :: "(string \<times> js_value) list \<Rightarrow> string" where
  "JSON_stringify_object ps = ''{'' @ join '','' (SerializeJSONObject ps) @ ''}''"

subsection \<open>Creating properties\<close>

text \<open>
  An object enumerates its array-index keys first, in ascending numeric order, then its
  other string keys in creation order. Writing an existing key keeps its place.
\<close>

definition is_digit :: "char \<Rightarrow> bool" where
  "is_digit c = (48 \<le> (of_char c :: nat) \<and> (of_char c :: nat) \<le> 57)"

definition int_of_digits :: "string \<Rightarrow> int" where
  "int_of_digits k = foldl (\<lambda>n c. 10 * n + (int (of_char c) - 48)) 0 k"

definition array_index :: "string \<Rightarrow> int option" where
  "array_index k =
     (if k \<noteq> [] \<and> list_all is_digit k \<and> (k = ''0'' \<or> hd k \<noteq> CHR ''0'')
         \<and> int_of_digits k < 4294967295
      then Some (int_of_digits k) else None)"

fun insert_index :: "(string \<times> js_value) list \<Rightarrow> int \<Rightarrow> string \<Rightarrow> js_value \<Rightarrow> (string \<times> js_value) list" where
  "insert_index [] i k v = [(k, v)]"
| "insert_index (p # ps) i k v =
     (case array_index (fst p) of
        Some j \<Rightarrow> if j < i then p # insert_index ps i k v else (k, v) # p # ps
      | None \<Rightarrow> (k, v) # p # ps)"

fun overwrite :: "(string \<times> js_value) list \<Rightarrow> string \<Rightarrow> js_value \<Rightarrow> (string \<times> js_value) list" where
  "overwrite [] k v = []"
| "overwrite (p # ps) k v = (if fst p = k then (k, v) # ps else p # overwrite ps k v)"

definition CreateDataProperty :: "(string \<times> js_value) list \<Rightarrow> string \<Rightarrow> js_value \<Rightarrow> (string \<times> js_value) list" where
  "CreateDataProperty ps k v =
     (if k \<in> fst ` set ps then overwrite ps k v
      else case array_index k of
             Some i \<Rightarrow> insert_index ps i k v
           | None \<Rightarrow> ps @ [(k, v)])"

text \<open>Object spread \<^verbatim>\<open>{ ...target, ...source }\<close>: the source's properties, in its order.\<close>

definition CopyDataProperties :: "(string \<times> js_value) list \<Rightarrow> (string \<times> js_value) list \<Rightarrow> (string \<times> js_value) list" where
  "CopyDataProperties target source = foldl (\<lambda>t p. CreateDataProperty t (fst p) (snd p)) target source"

section \<open>The Loki service (\<^verbatim>\<open>src/loki/loki.service.ts\<close>)\<close>

text \<open>
  A \<^verbatim>\<open>Date\<close> holds a time value in milliseconds since the epoch, or is invalid
  (time value \<open>NaN\<close>). A \<^verbatim>\<open>Date\<close> object is always truthy. A field of an entry
  that is absent reads as \<open>JUndefined\<close>; the optional \<open>labels\<close> and \<open>timestamp\<close> are \<open>None\<close>
  when absent.
\<close>

datatype Date = Date int | Invalid_Date

record LogEntry =
  message :: js_value
  device_id :: js_value
  severity :: js_value
  labels :: "(string \<times> js_value) list option"
  timestamp :: "Date option"

record LokiStream =
  stream :: string
  "values" :: "(string \<times> js_value) list"

type_synonym LokiPushRequest = "LokiStream list"

text \<open>What the service hands to its \<^verbatim>\<open>Logger\<close>.\<close>

datatype logger_call =
    Logger_log string
  | Logger_warn string "LogEntry option"
  | Logger_error string

text \<open>What a \<^verbatim>\<open>catch\<close> clause can receive.\<close>

datatype thrown = Error string | Thrown_value

text \<open>
  The arrays of the service live in a store: \<open>logBuffer\<close> is a reference, the array literal
  \<^verbatim>\<open>[]\<close> and the copy \<^verbatim>\<open>[...this.logBuffer]\<close> allocate, \<^verbatim>\<open>push\<close> and
  \<^verbatim>\<open>unshift\<close> write through the reference.
\<close>

record LokiService =
  arrays :: "nat \<Rightarrow> LogEntry list"
  next_ref :: nat
  logBuffer :: nat
  lastFlush :: "Date option"
  lastError :: "string option"
  isShuttingDown :: bool
  logger :: "logger_call list"

definition buffer :: "LokiService \<Rightarrow> LogEntry list" where
  "buffer s = arrays s (logBuffer s)"

text \<open>The constructor: an empty buffer, nothing flushed, no error.\<close>

definition new_LokiService :: LokiService where
  "new_LokiService =
     \<lparr> arrays = (\<lambda>r. []), next_ref = 1, logBuffer = 0, lastFlush = None, lastError = None,
       isShuttingDown = False, logger = [] \<rparr>"

definition log_call :: "logger_call \<Rightarrow> LokiService \<Rightarrow> LokiService" where
  "log_call c s = s\<lparr> logger := logger s @ [c] \<rparr>"

subsection \<open>\<^verbatim>\<open>convertToLokiFormat\<close>\<close>

text \<open>
  The \<^verbatim>\<open>Map\<close> from stream key to entries keeps insertion order; it is an association
  list with one pair per key.
\<close>

definition Map_has :: "(string \<times> LogEntry list) list \<Rightarrow> string \<Rightarrow> bool" where
  "Map_has m k = (k \<in> fst ` set m)"

definition Map_set_new :: "(string \<times> LogEntry list) list \<Rightarrow> string \<Rightarrow> (string \<times> LogEntry list) list" where
  "Map_set_new m k = m @ [(k, [])]"

definition Map_get_push :: "(string \<times> LogEntry list) list \<Rightarrow> string \<Rightarrow> LogEntry \<Rightarrow> (string \<times> LogEntry list) list" where
  "Map_get_push m k e = map (\<lambda>p. if fst p = k then (fst p, snd p @ [e]) else p) m"

definition entry_labels :: "LogEntry \<Rightarrow> (string \<times> js_value) list" where
  "entry_labels entry =
     CopyDataProperties [(''severity'', severity entry), (''device_id'', device_id entry)]
       (case labels entry of None \<Rightarrow> [] | Some ls \<Rightarrow> ls)"

definition streamKey :: "LogEntry \<Rightarrow> string" where
  "streamKey entry = JSON_stringify_object (entry_labels entry)"

definition group_entry :: "(string \<times> LogEntry list) list \<Rightarrow> LogEntry \<Rightarrow> (string \<times> LogEntry list) list" where
  "group_entry streamMap entry =
     (let k = streamKey entry;
          m = (if \<not> Map_has streamMap k then Map_set_new streamMap k else streamMap)
      in Map_get_push m k entry)"

subsection \<open>The timestamp text\<close>

text \<open>
  The timestamp of a value pair is \<^verbatim>\<open>(timestamp.getTime() * 1000000).toString()\<close>.
  \<^verbatim>\<open>getTime\<close> returns the time value, an integer, or \<open>NaN\<close> for an invalid date. The
  product is a double: the exact product rounded to the nearest double, ties to even.
  \<open>round_to_double\<close> is that rounding on non-negative integers (the sign is carried
  separately): a double has 53 significant bits.
\<close>

fun bit_length :: "nat \<Rightarrow> nat" where
  "bit_length n = (if n = 0 then 0 else Suc (bit_length (n div 2)))"

declare bit_length.simps [simp del]

definition round_to_double :: "nat \<Rightarrow> nat" where
  "round_to_double a =
     (if bit_length a \<le> 53 then a
      else
        let e = bit_length a - 53;
            q = a div 2 ^ e;
            r = a mod 2 ^ e;
            h = 2 ^ (e - 1)
        in (if r > h \<or> (r = h \<and> odd q) then q + 1 else q) * 2 ^ e)"

text \<open>
  \<^verbatim>\<open>Number.prototype.toString\<close> on a double whose value is the positive integer \<open>x\<close>
  takes integers \<open>n\<close>, \<open>k\<close>, \<open>s\<close> with \<open>s\<close> of \<open>k\<close> digits such that the double nearest to
  \<open>s * 10 ^ (n - k)\<close> is \<open>x\<close>, with \<open>k\<close> as small as possible; among several \<open>s\<close> the one
  nearest to \<open>x\<close>, and the even one of two equally near. It prints the digits of \<open>s\<close>
  followed by \<open>n - k\<close> zeros when \<open>n \<le> 21\<close>, and exponent notation otherwise.

  A candidate \<open>(s, j)\<close> stands for the digits of \<open>s\<close> followed by \<open>j = n - k\<close> zeros. At each
  \<open>j\<close> the candidate nearest to \<open>x\<close> is one of the two multiples of \<open>10 ^ j\<close> around \<open>x\<close>,
  so only these two are listed. (Digits after a decimal point never give a shorter text
  for an integer \<open>x\<close>, which is a candidate itself.)
\<close>

definition candidates :: "nat \<Rightarrow> (nat \<times> nat) list" where
  "candidates x =
     concat (map (\<lambda>j. filter (\<lambda>c. fst c > 0 \<and> round_to_double (fst c * 10 ^ snd c) = x)
                         [(x div 10 ^ j, j), (x div 10 ^ j + 1, j)])
                 [0 ..< length (string_of_nat x) + 1])"

definition distance :: "nat \<Rightarrow> nat \<times> nat \<Rightarrow> nat" where
  "distance x c =
     (if fst c * 10 ^ snd c \<ge> x then fst c * 10 ^ snd c - x else x - fst c * 10 ^ snd c)"

definition better :: "nat \<Rightarrow> nat \<times> nat \<Rightarrow> nat \<times> nat \<Rightarrow> bool" where
  "better x c c' =
     (let k = length (string_of_nat (fst c)); k' = length (string_of_nat (fst c')) in
      k < k' \<or> (k = k' \<and> (distance x c < distance x c'
                          \<or> (distance x c = distance x c' \<and> even (fst c) \<and> odd (fst c')))))"

fun best :: "nat \<Rightarrow> nat \<times> nat \<Rightarrow> (nat \<times> nat) list \<Rightarrow> nat \<times> nat" where
  "best x c [] = c"
| "best x c (c' # cs) = best x (if better x c' c then c' else c) cs"

definition shortest :: "nat \<Rightarrow> nat \<times> nat" where
  "shortest x = (case candidates x of [] \<Rightarrow> (x, 0) | c # cs \<Rightarrow> best x c cs)"

definition Number_toString :: "nat \<Rightarrow> string" where
  "Number_toString x =
     (if x = 0 then ''0''
      else
        let c = shortest x;
            digits = string_of_nat (fst c);
            k = length digits;
            n = k + snd c
        in if n \<le> 21 then digits @ replicate (snd c) CHR ''0''
           else if k = 1 then digits @ ''e+'' @ string_of_nat (n - 1)
           else take 1 digits @ ''.'' @ drop 1 digits @ ''e+'' @ string_of_nat (n - 1))"

definition nanoseconds :: "Date \<Rightarrow> string" where
  "nanoseconds t =
     (case t of
        Invalid_Date \<Rightarrow> ''NaN''
      | Date ms \<Rightarrow> (if ms < 0 then ''-'' else [])
                    @ Number_toString (round_to_double (nat \<bar>ms\<bar> * 1000000)))"

text \<open>
  The label object of a stream is \<^verbatim>\<open>JSON.parse(streamKey)\<close>; the field \<open>stream\<close> holds
  it as that JSON text.
\<close>

definition stream_values :: "Date \<Rightarrow> LogEntry list \<Rightarrow> (string \<times> js_value) list" where
  "stream_values now logs =
     map (\<lambda>log. (nanoseconds (case timestamp log of None \<Rightarrow> now | Some t \<Rightarrow> t), message log)) logs"

definition convertToLokiFormat :: "Date \<Rightarrow> LogEntry list \<Rightarrow> LokiPushRequest" where
  "convertToLokiFormat now entries =
     map (\<lambda>p. \<lparr> stream = fst p, values = stream_values now (snd p) \<rparr>)
       (foldl group_entry [] entries)"

subsection \<open>Calls with spread arguments\<close>

text \<open>
  A call \<^verbatim>\<open>f(...xs)\<close> passes every element of \<^verbatim>\<open>xs\<close> as an argument of its own. An
  engine takes only so many arguments in one call, since it puts them on its stack: with
  more, the call throws a \<^verbatim>\<open>RangeError\<close> and \<^verbatim>\<open>f\<close> does not run. That number,
  \<open>max_arguments\<close>, depends on the engine and on the stack that is left at the call (it is
  of the order of 100000 with the default stack of Node.js); it is a parameter of every
  function that makes such a call. \<open>spread\<close> is the evaluation of the argument list: the
  arguments, or what is thrown.
\<close>

definition RangeError :: thrown where
  "RangeError = Error ''Maximum call stack size exceeded''"

definition spread :: "nat \<Rightarrow> 'a list \<Rightarrow> thrown + 'a list" where
  "spread max_arguments xs = (if length xs \<le> max_arguments then Inr xs else Inl RangeError)"

subsection \<open>\<^verbatim>\<open>flushLogs\<close>\<close>

text \<open>
  \<^verbatim>\<open>flushLogs\<close> runs without interruption up to \<^verbatim>\<open>await this.sendToLoki(...)\<close>; the
  rest of its body runs when the request has settled, and other calls run in between.
  \<open>flushLogs\<close> is the first part: it returns the delivery now in flight, if any.
  \<open>flushLogs_settled\<close> is the second part, given how \<^verbatim>\<open>sendToLoki\<close> ended: \<open>None\<close> when
  it returned, \<open>Some e\<close> when it threw \<open>e\<close>. Its own result is \<open>None\<close> when the promise of
  \<^verbatim>\<open>flushLogs\<close> is fulfilled and \<open>Some e\<close> when it is rejected with \<open>e\<close>, which happens when
  \<^verbatim>\<open>this.logBuffer.unshift(...logsToSend)\<close> throws inside the \<^verbatim>\<open>catch\<close> clause.
\<close>

record in_flight =
  logsToSend :: nat
  lokiRequest :: LokiPushRequest

definition flushLogs :: "Date \<Rightarrow> LokiService \<Rightarrow> in_flight option \<times> LokiService" where
  "flushLogs now s =
     (if length (buffer s) = 0 then (None, s)
      else
        let a = next_ref s;
            b = next_ref s + 1;
            s' = s\<lparr> arrays := (arrays s)(a := buffer s, b := []),
                    next_ref := next_ref s + 2,
                    logBuffer := b \<rparr>
        in (Some \<lparr> logsToSend = a, lokiRequest = convertToLokiFormat now (arrays s' a) \<rparr>, s'))"

definition errorMessage :: "thrown \<Rightarrow> string" where
  "errorMessage error = (case error of Error m \<Rightarrow> m | Thrown_value \<Rightarrow> ''Unknown error'')"

definition unshift :: "LogEntry list \<Rightarrow> LokiService \<Rightarrow> LokiService" where
  "unshift es s = s\<lparr> arrays := (arrays s)(logBuffer s := es @ buffer s) \<rparr>"

definition flushLogs_settled :: "nat \<Rightarrow> thrown option \<Rightarrow> Date \<Rightarrow> in_flight \<Rightarrow> LokiService \<Rightarrow> thrown option \<times> LokiService" where
  "flushLogs_settled max_arguments outcome now fl s =
     (case outcome of
        None \<Rightarrow>
          (None,
           log_call (Logger_log (''Successfully sent '' @ string_of_nat (length (arrays s (logsToSend fl)))
                                   @ '' logs to Loki''))
             (s\<lparr> lastFlush := Some now, lastError := None \<rparr>))
      | Some error \<Rightarrow>
          let s1 = log_call (Logger_error (''Failed to send logs to Loki: '' @ errorMessage error))
                     (s\<lparr> lastError := Some (errorMessage error) \<rparr>)
          in if length (buffer s1) < 1000
             then (case spread max_arguments (arrays s1 (logsToSend fl)) of
                     Inl e \<Rightarrow> (Some e, s1)
                   | Inr args \<Rightarrow> (None, unshift args s1))
             else (None,
                   log_call (Logger_warn (''Log buffer full, dropping ''
                                            @ string_of_nat (length (arrays s1 (logsToSend fl))) @ '' logs'') None) s1))"

definition forceFlush :: "Date \<Rightarrow> LokiService \<Rightarrow> in_flight option \<times> LokiService" where
  "forceFlush now s = flushLogs now s"

text \<open>The body of the interval timer set up by \<^verbatim>\<open>startBatchProcessing\<close>.\<close>

definition timer_tick :: "Date \<Rightarrow> LokiService \<Rightarrow> in_flight option \<times> LokiService" where
  "timer_tick now s =
     (if length (buffer s) > 0 \<and> \<not> isShuttingDown s then flushLogs now s else (None, s))"

subsection \<open>\<^verbatim>\<open>pushLog\<close> and \<^verbatim>\<open>pushLogs\<close>\<close>

text \<open>
  \<open>batchSize\<close> is \<^verbatim>\<open>parseInt\<close> of an environment variable: an integer, or \<open>NaN\<close> (here
  \<open>None\<close>), with which every comparison is false.

  \<^verbatim>\<open>pushLog\<close> appends one entry, \<^verbatim>\<open>pushLogs\<close> appends with
  \<^verbatim>\<open>this.logBuffer.push(...validEntries)\<close>, which throws when there are too many valid
  entries for one call; the promise of \<^verbatim>\<open>pushLogs\<close> is then rejected (\<open>Inl\<close>), after the
  warnings for the invalid entries and before anything is appended.
\<close>

definition reaches :: "nat \<Rightarrow> int option \<Rightarrow> bool" where
  "reaches n batchSize = (case batchSize of None \<Rightarrow> False | Some b \<Rightarrow> int n \<ge> b)"

definition invalid_entry :: "LogEntry \<Rightarrow> bool" where
  "invalid_entry entry = (\<not> truthy (message entry) \<or> \<not> truthy (device_id entry) \<or> \<not> truthy (severity entry))"

definition with_timestamp :: "Date \<Rightarrow> LogEntry \<Rightarrow> LogEntry" where
  "with_timestamp now entry =
     entry\<lparr> timestamp := Some (case timestamp entry of None \<Rightarrow> now | Some t \<Rightarrow> t) \<rparr>"

definition push :: "LogEntry list \<Rightarrow> LokiService \<Rightarrow> LokiService" where
  "push es s = s\<lparr> arrays := (arrays s)(logBuffer s := buffer s @ es) \<rparr>"

definition pushLog :: "int option \<Rightarrow> LogEntry \<Rightarrow> Date \<Rightarrow> LokiService \<Rightarrow> in_flight option \<times> LokiService" where
  "pushLog batchSize entry now s =
     (if isShuttingDown s
      then (None, log_call (Logger_warn ''Service is shutting down, rejecting new logs'' None) s)
      else if invalid_entry entry
      then (None, log_call (Logger_warn ''Invalid log entry, skipping'' (Some entry)) s)
      else
        let s1 = push [with_timestamp now entry] s
        in if reaches (length (buffer s1)) batchSize then flushLogs now s1 else (None, s1))"

definition warn_invalid :: "LokiService \<Rightarrow> LogEntry list \<Rightarrow> LokiService" where
  "warn_invalid s entries =
     foldl (\<lambda>t entry. if invalid_entry entry
                       then log_call (Logger_warn ''Invalid log entry, skipping'' (Some entry)) t
                       else t) s entries"

definition pushLogs :: "nat \<Rightarrow> int option \<Rightarrow> LogEntry list \<Rightarrow> Date \<Rightarrow> LokiService \<Rightarrow> (thrown + in_flight option) \<times> LokiService" where
  "pushLogs max_arguments batchSize entries now s =
     (if isShuttingDown s
      then (Inr None, log_call (Logger_warn ''Service is shutting down, rejecting new logs'' None) s)
      else
        let validEntries = map (with_timestamp now) (filter (\<lambda>entry. \<not> invalid_entry entry) entries);
            s0 = warn_invalid s entries
        in case spread max_arguments validEntries of
             Inl e \<Rightarrow> (Inl e, s0)
           | Inr args \<Rightarrow>
               let s1 = push args s0
               in if reaches (length (buffer s1)) batchSize
                  then (Inr (fst (flushLogs now s1)), snd (flushLogs now s1))
                  else (Inr None, s1))"

subsection \<open>\<^verbatim>\<open>onModuleDestroy\<close>\<close>

text \<open>
  The service stops accepting entries, and flushes what the buffer holds. As with the
  other calls, this is the part up to the \<^verbatim>\<open>await\<close>; afterwards the call only logs an
  error when the flush was rejected or took more than five seconds. (\<^verbatim>\<open>clearInterval\<close>
  stops the timer; a tick would do nothing anyway once the service is shutting down.)
\<close>

definition onModuleDestroy :: "Date \<Rightarrow> LokiService \<Rightarrow> in_flight option \<times> LokiService" where
  "onModuleDestroy now s =
     (let s1 = s\<lparr> isShuttingDown := True \<rparr>
      in if length (buffer s1) > 0
         then flushLogs now
                (log_call (Logger_log (''Flushing '' @ string_of_nat (length (buffer s1))
                                         @ '' remaining logs before shutdown'')) s1)
         else (None, s1))"

section \<open>The MQTT subscriber (\<^verbatim>\<open>src/mqtt/mqtt-subscriber.service.ts\<close>)\<close>

subsection \<open>String methods\<close>

definition toLowerCase_char :: "char \<Rightarrow> char" where
  "toLowerCase_char c =
     (if 65 \<le> (of_char c :: nat) \<and> (of_char c :: nat) \<le> 90 then char_of (of_char c + 32 :: nat) else c)"

definition toLowerCase :: "string \<Rightarrow> string" where
  "toLowerCase s = map toLowerCase_char s"

definition startsWith :: "string \<Rightarrow> string \<Rightarrow> bool" where
  "startsWith s p = (take (length p) s = p)"

fun str_includes :: "string \<Rightarrow> string \<Rightarrow> bool" where
  "str_includes [] p = (p = [])"
| "str_includes (c # cs) p = (startsWith (c # cs) p \<or> str_includes cs p)"

text \<open>\<^verbatim>\<open>s.split(sep)\<close> for a separator of one character: never an empty array.\<close>

fun split_on :: "char \<Rightarrow> string \<Rightarrow> string list" where
  "split_on sep [] = [[]]"
| "split_on sep (c # cs) =
     (if c = sep then [] # split_on sep cs
      else case split_on sep cs of
             [] \<Rightarrow> [[c]]
           | p # ps \<Rightarrow> (c # p) # ps)"

text \<open>\<^verbatim>\<open>xs[i]\<close>: \<^verbatim>\<open>undefined\<close> (here \<open>None\<close>) outside the array.\<close>

definition element :: "'a list \<Rightarrow> int \<Rightarrow> 'a option" where
  "element xs i = (if 0 \<le> i \<and> i < int (length xs) then Some (xs ! nat i) else None)"

subsection \<open>Types\<close>

datatype LogSeverity = DEBUG | INFO | WARNING | ERROR | CRITICAL

text \<open>The enum's members are strings at run time.\<close>

fun LogSeverity_value :: "LogSeverity \<Rightarrow> js_value" where
  "LogSeverity_value DEBUG = JStr ''debug''"
| "LogSeverity_value INFO = JStr ''info''"
| "LogSeverity_value WARNING = JStr ''warning''"
| "LogSeverity_value ERROR = JStr ''error''"
| "LogSeverity_value CRITICAL = JStr ''critical''"

record IoTMessage =
  iot_deviceId :: js_value
  iot_message :: js_value
  iot_severity :: js_value
  iot_metadata :: js_value
  iot_timestamp :: "Date option"

text \<open>
  A call that may throw returns \<open>Inl\<close> of what it threw. \<open>continue r f\<close> runs \<open>f\<close> on the
  result of \<open>r\<close> unless \<open>r\<close> threw.
\<close>

definition continue :: "thrown + 'a \<Rightarrow> ('a \<Rightarrow> thrown + 'b) \<Rightarrow> thrown + 'b" where
  "continue r f = (case r of Inl e \<Rightarrow> Inl e | Inr v \<Rightarrow> f v)"

text \<open>
  Reading a property of the parsed payload. Reading from \<^verbatim>\<open>null\<close> or \<^verbatim>\<open>undefined\<close>
  throws a \<^verbatim>\<open>TypeError\<close>. The service reads only \<^verbatim>\<open>deviceId\<close>, \<^verbatim>\<open>message\<close>,
  \<^verbatim>\<open>severity\<close>, \<^verbatim>\<open>metadata\<close>, \<^verbatim>\<open>timestamp\<close> and \<^verbatim>\<open>level\<close> this way, names that
  no prototype defines, so only own properties of objects count.
\<close>

definition get_property :: "js_value \<Rightarrow> string \<Rightarrow> thrown + js_value" where
  "get_property v k =
     (case v of
        JUndefined \<Rightarrow> Inl (Error (''Cannot read properties of undefined (reading '' @ k @ '')''))
      | JNull \<Rightarrow> Inl (Error (''Cannot read properties of null (reading '' @ k @ '')''))
      | JObj ps \<Rightarrow> Inr (case map_of ps k of None \<Rightarrow> JUndefined | Some x \<Rightarrow> x)
      | _ \<Rightarrow> Inr JUndefined)"

subsection \<open>\<^verbatim>\<open>extractDeviceIdFromTopic\<close>\<close>

definition extractDeviceIdFromTopic :: "string \<Rightarrow> string" where
  "extractDeviceIdFromTopic topic =
     (let parts = split_on CHR ''/'' topic in
      if length parts \<ge> 3 then parts ! 1
      else if length parts = 2 then parts ! 0
      else case element parts (int (length parts) - 2) of
             None \<Rightarrow> ''unknown''
           | Some p \<Rightarrow> if p \<noteq> [] then p else ''unknown'')"

subsection \<open>\<^verbatim>\<open>mapToLogSeverity\<close>\<close>

definition severityMap :: "(string \<times> LogSeverity) list" where
  "severityMap =
     [(''debug'', DEBUG), (''info'', INFO), (''information'', INFO), (''warn'', WARNING),
      (''warning'', WARNING), (''error'', ERROR), (''err'', ERROR), (''critical'', CRITICAL),
      (''crit'', CRITICAL), (''fatal'', CRITICAL)]"

text \<open>
  \<^verbatim>\<open>severityMap\<close> is an object literal, so \<^verbatim>\<open>severityMap[key]\<close> looks a key that is
  not its own up in \<^verbatim>\<open>Object.prototype\<close>.
\<close>

definition Object_prototype_get :: "string \<Rightarrow> js_value" where
  "Object_prototype_get k =
     (if k = ''constructor'' then JBuiltin ObjectConstructor
      else if k = ''__proto__'' then JBuiltin ObjectPrototype
      else if k \<in> set [''toString'', ''toLocaleString'', ''valueOf'', ''hasOwnProperty'',
                        ''isPrototypeOf'', ''propertyIsEnumerable'', ''__defineGetter__'',
                        ''__defineSetter__'', ''__lookupGetter__'', ''__lookupSetter__'']
        then JBuiltin (ObjectMethod k)
      else JUndefined)"

definition severityMap_get :: "string \<Rightarrow> js_value" where
  "severityMap_get k =
     (case map_of severityMap k of
        Some v \<Rightarrow> LogSeverity_value v
      | None \<Rightarrow> Object_prototype_get k)"

definition mapToLogSeverity :: "js_value \<Rightarrow> thrown + js_value" where
  "mapToLogSeverity sev =
     (if \<not> truthy sev then Inr JUndefined
      else case sev of
             JStr s \<Rightarrow> Inr (severityMap_get (toLowerCase s))
           | _ \<Rightarrow> Inl (Error ''severity.toLowerCase is not a function''))"

subsection \<open>\<^verbatim>\<open>inferMessageType\<close>\<close>

definition keyword_scan :: "string \<Rightarrow> js_value" where
  "keyword_scan messageText =
     (let lowerMessage = toLowerCase messageText in
      if str_includes lowerMessage ''error'' \<or> str_includes lowerMessage ''exception''
           \<or> str_includes lowerMessage ''fail''
      then LogSeverity_value ERROR
      else if str_includes lowerMessage ''warn'' then LogSeverity_value WARNING
      else LogSeverity_value INFO)"

definition content_scan :: "js_value \<Rightarrow> thrown + js_value" where
  "content_scan content =
     (case (case content of JStr s \<Rightarrow> Some s | _ \<Rightarrow> JSON_stringify content) of
        None \<Rightarrow> Inl (Error ''Cannot read properties of undefined (reading toLowerCase)'')
      | Some messageText \<Rightarrow> Inr (keyword_scan messageText))"

definition inferMessageType :: "string \<Rightarrow> js_value \<Rightarrow> thrown + js_value" where
  "inferMessageType topic content =
     (if str_includes topic ''/error'' \<or> str_includes topic ''/alert'' then Inr (LogSeverity_value ERROR)
      else if str_includes topic ''/warning'' \<or> str_includes topic ''/warn'' then Inr (LogSeverity_value WARNING)
      else if str_includes topic ''/debug'' then Inr (LogSeverity_value DEBUG)
      else continue (get_property content ''level'') (\<lambda>level.
           if truthy level
           then continue (mapToLogSeverity level) (\<lambda>mapped.
                  if truthy mapped then Inr mapped else content_scan content)
           else content_scan content))"

subsection \<open>\<^verbatim>\<open>normalizeMessage\<close>, \<^verbatim>\<open>createPlainTextMessage\<close>, \<^verbatim>\<open>convertToLogEntry\<close>\<close>

text \<open>
  \<open>new_Date\<close> is the constructor \<^verbatim>\<open>new Date(value)\<close> of the runtime, which parses a
  string, takes a number as a time value, and throws when an object cannot be converted
  to a primitive. \<open>now\<close> is what \<^verbatim>\<open>new Date()\<close> returns when it is called.
\<close>

definition normalizeMessage :: "(js_value \<Rightarrow> thrown + Date) \<Rightarrow> Date \<Rightarrow> js_value \<Rightarrow> string \<Rightarrow> thrown + IoTMessage" where
  "normalizeMessage new_Date now parsedMessage topic =
     continue (get_property parsedMessage ''deviceId'') (\<lambda>d.
     continue (get_property parsedMessage ''message'') (\<lambda>m.
     continue (get_property parsedMessage ''severity'') (\<lambda>sv.
     continue (mapToLogSeverity sv) (\<lambda>mapped.
     continue (if truthy mapped then Inr mapped else inferMessageType topic parsedMessage) (\<lambda>sev.
     continue (get_property parsedMessage ''metadata'') (\<lambda>metadata.
     continue (get_property parsedMessage ''timestamp'') (\<lambda>ts.
     continue (if truthy ts then new_Date ts else Inr now) (\<lambda>date.
       Inr \<lparr> iot_deviceId = (if truthy d then d else JStr (extractDeviceIdFromTopic topic)),
             iot_message = (case m of
                              JStr t \<Rightarrow> JStr t
                            | _ \<Rightarrow> (case JSON_stringify parsedMessage of
                                      None \<Rightarrow> JUndefined
                                    | Some t \<Rightarrow> JStr t)),
             iot_severity = sev,
             iot_metadata = metadata,
             iot_timestamp = Some date \<rparr>))))))))"

definition createPlainTextMessage :: "Date \<Rightarrow> string \<Rightarrow> string \<Rightarrow> thrown + IoTMessage" where
  "createPlainTextMessage now text topic =
     continue (inferMessageType topic (JObj [(''message'', JStr text)])) (\<lambda>sev.
       Inr \<lparr> iot_deviceId = JStr (extractDeviceIdFromTopic topic), iot_message = JStr text,
             iot_severity = sev, iot_metadata = JUndefined, iot_timestamp = Some now \<rparr>)"

definition convertToLogEntry :: "Date \<Rightarrow> IoTMessage \<Rightarrow> LogEntry" where
  "convertToLogEntry now m =
     (let logMessage = (case iot_message m of
                          JStr t \<Rightarrow> JStr t
                        | v \<Rightarrow> (case JSON_stringify v of None \<Rightarrow> JUndefined | Some t \<Rightarrow> JStr t));
          base = [(''severity'', iot_severity m), (''device_id'', iot_deviceId m),
                  (''source'', JStr ''smtrack-logging'')]
      in \<lparr> message = logMessage,
           device_id = iot_deviceId m,
           severity = iot_severity m,
           labels = Some (if truthy (iot_metadata m)
                          then CopyDataProperties base
                                 [(''metadata'', case JSON_stringify (iot_metadata m) of
                                                   None \<Rightarrow> JUndefined | Some t \<Rightarrow> JStr t)]
                          else base),
           timestamp = Some (case iot_timestamp m of None \<Rightarrow> now | Some t \<Rightarrow> t) \<rparr>)"

subsection \<open>\<^verbatim>\<open>handleMessage\<close>\<close>

text \<open>
  \<open>normalize\<close> is \<^verbatim>\<open>handleMessage\<close> up to the entry it hands to \<^verbatim>\<open>pushLog\<close>: the payload
  text is parsed and normalised; whatever is thrown on the way, by \<^verbatim>\<open>JSON.parse\<close> (the
  parameter \<open>JSON_parse\<close>) or by \<open>normalizeMessage\<close>, is caught and the text is taken as a
  plain text message. An \<open>Inl\<close> result is an error that reaches the outer
  \<^verbatim>\<open>catch\<close> before any entry exists.
\<close>

definition catch :: "thrown + 'a \<Rightarrow> (thrown \<Rightarrow> thrown + 'a) \<Rightarrow> thrown + 'a" where
  "catch r handler = (case r of Inl e \<Rightarrow> handler e | Inr v \<Rightarrow> Inr v)"

definition normalize :: "(string \<Rightarrow> thrown + js_value) \<Rightarrow> (js_value \<Rightarrow> thrown + Date) \<Rightarrow> Date \<Rightarrow> Date \<Rightarrow> string \<Rightarrow> string \<Rightarrow> thrown + LogEntry" where
  "normalize JSON_parse new_Date now now' topic messageStr =
     continue
       (catch (continue (JSON_parse messageStr) (\<lambda>parsedMessage.
                 normalizeMessage new_Date now parsedMessage topic))
          (\<lambda>e. createPlainTextMessage now messageStr topic))
       (\<lambda>m. Inr (convertToLogEntry now' m))"

section \<open>The event loop\<close>

text \<open>
  While deliveries are in flight the event loop runs other calls of the service, and the
  rest of \<^verbatim>\<open>flushLogs\<close> for each delivery that settles, one after the other and in any
  order. An event is a call of \<^verbatim>\<open>pushLog\<close> or \<^verbatim>\<open>pushLogs\<close>, a tick of the interval
  timer, a call of \<^verbatim>\<open>forceFlush\<close> or \<^verbatim>\<open>onModuleDestroy\<close>, or the settling of the
  delivery at some position among those in flight, with the outcome of \<^verbatim>\<open>sendToLoki\<close>.
  The events with a spread call carry, last, the number of arguments that the engine takes
  at that moment.

  The system is the service together with the deliveries in flight, oldest first, and the
  rejections of promises seen so far. A call that starts a flush adds its delivery; a
  delivery that settles is removed.
\<close>

datatype event =
    PushLog LogEntry Date
  | PushLogs "LogEntry list" Date nat
  | Tick Date
  | ForceFlush Date
  | Shutdown Date
  | Settle nat "thrown option" Date nat

record system =
  service :: LokiService
  flights :: "in_flight list"
  rejections :: "thrown list"

definition new_system :: system where
  "new_system = \<lparr> service = new_LokiService, flights = [], rejections = [] \<rparr>"

definition started :: "in_flight option \<Rightarrow> LokiService \<Rightarrow> system \<Rightarrow> system" where
  "started fl s sys =
     sys\<lparr> service := s, flights := flights sys @ (case fl of None \<Rightarrow> [] | Some f \<Rightarrow> [f]) \<rparr>"

definition rejected :: "thrown option \<Rightarrow> LokiService \<Rightarrow> system \<Rightarrow> system" where
  "rejected r s sys =
     sys\<lparr> service := s, rejections := rejections sys @ (case r of None \<Rightarrow> [] | Some e \<Rightarrow> [e]) \<rparr>"

fun step :: "int option \<Rightarrow> event \<Rightarrow> system \<Rightarrow> system" where
  "step batchSize (PushLog entry now) sys =
     started (fst (pushLog batchSize entry now (service sys)))
       (snd (pushLog batchSize entry now (service sys))) sys"
| "step batchSize (PushLogs entries now max_arguments) sys =
     (case fst (pushLogs max_arguments batchSize entries now (service sys)) of
        Inl e \<Rightarrow> rejected (Some e) (snd (pushLogs max_arguments batchSize entries now (service sys))) sys
      | Inr fl \<Rightarrow> started fl (snd (pushLogs max_arguments batchSize entries now (service sys))) sys)"
| "step batchSize (Tick now) sys =
     started (fst (timer_tick now (service sys))) (snd (timer_tick now (service sys))) sys"
| "step batchSize (ForceFlush now) sys =
     started (fst (forceFlush now (service sys))) (snd (forceFlush now (service sys))) sys"
| "step batchSize (Shutdown now) sys =
     started (fst (onModuleDestroy now (service sys))) (snd (onModuleDestroy now (service sys))) sys"
| "step batchSize (Settle i outcome now max_arguments) sys =
     (if i < length (flights sys)
      then rejected (fst (flushLogs_settled max_arguments outcome now (flights sys ! i) (service sys)))
             (snd (flushLogs_settled max_arguments outcome now (flights sys ! i) (service sys)))
             (sys\<lparr> flights := take i (flights sys) @ drop (Suc i) (flights sys) \<rparr>)
      else sys)"

fun run :: "int option \<Rightarrow> event list \<Rightarrow> system \<Rightarrow> system" where
  "run batchSize [] sys = sys"
| "run batchSize (e # es) sys =
     run batchSize es (step batchSize e sys)"

section \<open>Notions used in the properties\<close>

text \<open>An entry with message, device id and severity populated, and a timestamp.\<close>

definition populated :: "LogEntry \<Rightarrow> bool" where
  "populated e =
     (truthy (message e) \<and> truthy (device_id e) \<and> truthy (severity e) \<and> timestamp e \<noteq> None)"

text \<open>
  The entries the service holds after a call: the batch the call detached, if it started
  a flush, followed by the live buffer.
\<close>

definition stored :: "in_flight option \<times> LokiService \<Rightarrow> LogEntry list" where
  "stored r = (case fst r of None \<Rightarrow> [] | Some f \<Rightarrow> arrays (snd r) (logsToSend f)) @ buffer (snd r)"

text \<open>The flush a call of \<^verbatim>\<open>pushLogs\<close> started, if it did not throw.\<close>

definition flush_of :: "thrown + in_flight option \<Rightarrow> in_flight option" where
  "flush_of r = (case r of Inl e \<Rightarrow> None | Inr fl \<Rightarrow> fl)"

text \<open>
  A system is consistent when the live buffer and the batches in flight are allocated
  arrays and no batch in flight is the live buffer.
\<close>

definition consistent :: "system \<Rightarrow> bool" where
  "consistent sys =
     (logBuffer (service sys) < next_ref (service sys)
      \<and> (\<forall>f \<in> set (flights sys).
            logsToSend f < next_ref (service sys) \<and> logsToSend f \<noteq> logBuffer (service sys)))"

text \<open>What the system holds: the batches in flight, oldest first, then the live buffer.\<close>

definition batch_of :: "LokiService \<Rightarrow> in_flight \<Rightarrow> LogEntry list" where
  "batch_of s f = arrays s (logsToSend f)"

definition held :: "system \<Rightarrow> LogEntry list" where
  "held sys = concat (map (batch_of (service sys)) (flights sys)) @ buffer (service sys)"

text \<open>
  The entries an event appends to the live buffer: those of its argument that pass the
  validation, unless the service is shutting down or, for \<^verbatim>\<open>pushLogs\<close>, they are too
  many for one call.
\<close>

fun appended_by :: "event \<Rightarrow> LokiService \<Rightarrow> LogEntry list" where
  "appended_by (PushLog entry now) s =
     (if isShuttingDown s \<or> invalid_entry entry then [] else [with_timestamp now entry])"
| "appended_by (PushLogs entries now max_arguments) s =
     (let validEntries = map (with_timestamp now) (filter (\<lambda>entry. \<not> invalid_entry entry) entries)
      in if isShuttingDown s \<or> length validEntries > max_arguments then [] else validEntries)"
| "appended_by (Tick now) s = []"
| "appended_by (ForceFlush now) s = []"
| "appended_by (Shutdown now) s = []"
| "appended_by (Settle i outcome now max_arguments) s = []"

text \<open>
  The batch that leaves the system when a delivery settles: it was delivered, when
  \<^verbatim>\<open>sendToLoki\<close> returned; it is discarded, when \<^verbatim>\<open>sendToLoki\<close> threw and the batch is
  not put back, because the live buffer holds 1000 entries or more or because the batch
  has too many entries for one call of \<^verbatim>\<open>unshift\<close>.
\<close>

fun delivered_by :: "event \<Rightarrow> system \<Rightarrow> LogEntry list" where
  "delivered_by (Settle i outcome now max_arguments) sys =
     (if i < length (flights sys) \<and> outcome = None then batch_of (service sys) (flights sys ! i) else [])"
| "delivered_by (PushLog entry now) sys = []"
| "delivered_by (PushLogs entries now max_arguments) sys = []"
| "delivered_by (Tick now) sys = []"
| "delivered_by (ForceFlush now) sys = []"
| "delivered_by (Shutdown now) sys = []"

fun discarded_by :: "event \<Rightarrow> system \<Rightarrow> LogEntry list" where
  "discarded_by (Settle i outcome now max_arguments) sys =
     (if i < length (flights sys) \<and> outcome \<noteq> None
         \<and> (length (buffer (service sys)) \<ge> 1000
             \<or> length (batch_of (service sys) (flights sys ! i)) > max_arguments)
      then batch_of (service sys) (flights sys ! i) else [])"
| "discarded_by (PushLog entry now) sys = []"
| "discarded_by (PushLogs entries now max_arguments) sys = []"
| "discarded_by (Tick now) sys = []"
| "discarded_by (ForceFlush now) sys = []"
| "discarded_by (Shutdown now) sys = []"

text \<open>The same over a run of events, each event taken in the system it finds.\<close>

fun appended :: "int option \<Rightarrow> event list \<Rightarrow> system \<Rightarrow> LogEntry list" where
  "appended batchSize [] sys = []"
| "appended batchSize (e # es) sys =
     appended_by e (service sys)
       @ appended batchSize es (step batchSize e sys)"

fun delivered :: "int option \<Rightarrow> event list \<Rightarrow> system \<Rightarrow> LogEntry list" where
  "delivered batchSize [] sys = []"
| "delivered batchSize (e # es) sys =
     delivered_by e sys @ delivered batchSize es (step batchSize e sys)"

fun discarded :: "int option \<Rightarrow> event list \<Rightarrow> system \<Rightarrow> LogEntry list" where
  "discarded batchSize [] sys = []"
| "discarded batchSize (e # es) sys =
     discarded_by e sys
       @ discarded batchSize es (step batchSize e sys)"

text \<open>The decimal text of an integer.\<close>

definition string_of_int :: "int \<Rightarrow> string" where
  "string_of_int i = (if i < 0 then ''-'' else []) @ string_of_nat (nat \<bar>i\<bar>)"


text \<open>
  What a call does to the arrays, when it finds the service \<open>s\<close>, appends \<open>es\<close> and leaves
  the service \<open>s'\<close>: arrays other than the live buffer stay as they are; without a flush
  the live buffer has the entries appended; with a flush the batch is a new array that holds
  the live buffer with the entries appended, and the live buffer is a new, empty array.
\<close>

definition call_effect :: "LokiService \<Rightarrow> LogEntry list \<Rightarrow> in_flight option \<Rightarrow> LokiService \<Rightarrow> bool" where
  "call_effect s es fl s' =
     ((\<forall>r < next_ref s. r \<noteq> logBuffer s \<longrightarrow> arrays s' r = arrays s r)
      \<and> (case fl of
            None \<Rightarrow> buffer s' = buffer s @ es \<and> logBuffer s' = logBuffer s \<and> next_ref s' = next_ref s
          | Some f \<Rightarrow> next_ref s \<le> logsToSend f \<and> logsToSend f < next_ref s'
                      \<and> next_ref s \<le> logBuffer s' \<and> logBuffer s' < next_ref s'
                      \<and> logsToSend f \<noteq> logBuffer s'
                      \<and> arrays s' (logsToSend f) = buffer s @ es \<and> buffer s' = []))"

section \<open>Example data\<close>

definition example_new_Date :: "js_value \<Rightarrow> thrown + Date" where
  "example_new_Date v = Inr Invalid_Date"

definition example_JSON_parse :: "string \<Rightarrow> thrown + js_value" where
  "example_JSON_parse t = Inl (Error ''Unexpected token'')"

definition entry_boot :: LogEntry where
  "entry_boot = \<lparr> message = JStr ''boot'', device_id = JStr ''d1'', severity = JStr ''info'',
                  labels = None, timestamp = Some (Date 1) \<rparr>"

definition entry_ready :: LogEntry where
  "entry_ready = \<lparr> message = JStr ''ready'', device_id = JStr ''d1'', severity = JStr ''info'',
                   labels = None, timestamp = Some (Date 2) \<rparr>"

definition entry_late :: LogEntry where
  "entry_late = \<lparr> message = JStr ''late'', device_id = JStr ''d2'', severity = JStr ''error'',
                  labels = None, timestamp = None \<rparr>"

definition entry_blank :: LogEntry where
  "entry_blank = \<lparr> message = JStr [], device_id = JStr ''d3'', severity = JStr ''info'',
                   labels = None, timestamp = None \<rparr>"



text \<open>A service with one array in flight (reference 1) and a live buffer (reference 2).\<close>

definition service_with :: "LogEntry list \<Rightarrow> LogEntry list \<Rightarrow> LokiService" where
  "service_with batch live =
     new_LokiService\<lparr> arrays := (\<lambda>r. [])(1 := batch, 2 := live), next_ref := 3, logBuffer := 2 \<rparr>"

definition flight1 :: in_flight where
  "flight1 = \<lparr> logsToSend = 1, lokiRequest = [] \<rparr>"

text \<open>
  A \<^verbatim>\<open>Date\<close> constructor that throws on an object with a property \<^verbatim>\<open>toString\<close> of its
  own (in a parsed payload that is never a function, so the object cannot be converted
  to a primitive), and makes an invalid date of anything else.
\<close>

definition example_Date_constructor :: "js_value \<Rightarrow> thrown + Date" where
  "example_Date_constructor v =
     (case v of
        JObj ps \<Rightarrow> if ''toString'' \<in> fst ` set ps
                   then Inl (Error ''Cannot convert object to primitive value'')
                   else Inr Invalid_Date
      | _ \<Rightarrow> Inr Invalid_Date)"

text \<open>
  A \<^verbatim>\<open>JSON.parse\<close> that knows one text, the serialisation of the object with the
  properties \<open>ps\<close>, and throws on any other.
\<close>

definition example_parse :: "(string \<times> js_value) list \<Rightarrow> string \<Rightarrow> thrown + js_value" where
  "example_parse ps t =
     (if t = JSON_stringify_object ps then Inr (JObj ps) else Inl (Error ''Unexpected token''))"

definition payload_warn :: "(string \<times> js_value) list" where
  "payload_warn = [(''severity'', JStr ''warn''), (''message'', JStr ''disk'')]"

definition payload_warn_timestamp_object :: "(string \<times> js_value) list" where
  "payload_warn_timestamp_object =
     [(''severity'', JStr ''warn''), (''message'', JStr ''disk''),
      (''timestamp'', JObj [(''toString'', JNum ''1'')])]"

definition payload_timestamp_garbage :: "(string \<times> js_value) list" where
  "payload_timestamp_garbage = [(''message'', JStr ''x''), (''timestamp'', JStr ''garbage'')]"

definition entry_timestamp_garbage :: LogEntry where
  "entry_timestamp_garbage =
     \<lparr> message = JStr ''x'', device_id = JStr ''d1'', severity = JStr ''info'',
       labels = Some [(''severity'', JStr ''info''), (''device_id'', JStr ''d1''),
                      (''source'', JStr ''smtrack-logging'')],
       timestamp = Some Invalid_Date \<rparr>"

text \<open>
  A sink outage seen from the MQTT subscriber: each message is pushed, and the delivery
  that the push starts fails before the next message arrives.
\<close>

definition outage :: "nat \<Rightarrow> nat \<Rightarrow> event list" where
  "outage max_arguments n =
     concat (replicate n [PushLog entry_boot (Date 1),
                          Settle 0 (Some (Error ''timeout'')) (Date 2) max_arguments])"

text \<open>
  Events up to the start of a first delivery, and events while it is in flight: an
  entry is pushed, a tick starts a second delivery with it, a thousand entries are pushed,
  which starts a third delivery, and the third and the second delivery fail, in this order.
\<close>

definition events_before :: "event list" where
  "events_before = [PushLog entry_boot (Date 1), Tick (Date 2)]"

definition events_during :: "event list" where
  "events_during =
     [PushLog entry_ready (Date 3), Tick (Date 4), PushLogs (replicate 1000 entry_late) (Date 5) 100000,
      Settle 2 (Some (Error ''timeout'')) (Date 6) 100000,
      Settle 1 (Some (Error ''timeout'')) (Date 7) 100000]"

text \<open>A system whose buffer holds one entry, with nothing in flight.\<close>

definition system_boot :: system where
  "system_boot = run (Some 10) [PushLog entry_boot (Date 1)] new_system"

section \<open>Serialisation\<close>

lemma JSON_stringify_JObj: "JSON_stringify (JObj ps) = Some (JSON_stringify_object ps)"
  by (simp add: JSON_stringify_object_def)

section \<open>Device identity from the topic\<close>

lemma split_on_no_sep: "sep \<notin> set s \<Longrightarrow> split_on sep s = [s]"
  by (induction s) auto

lemma split_on_nonempty: "split_on sep t \<noteq> []"
  by (induction t) (auto split: list.splits)

lemma split_on_append: "sep \<notin> set s \<Longrightarrow> split_on sep (s @ sep # rest) = s # split_on sep rest"
  by (induction s) (auto split: list.splits)

text \<open>Splitting undoes joining, and joining undoes splitting: the parts are the segments.\<close>

lemma split_on_join:
  "segs \<noteq> [] \<Longrightarrow> \<forall>s \<in> set segs. sep \<notin> set s \<Longrightarrow> split_on sep (join [sep] segs) = segs"
proof (induction "[sep]" segs rule: join.induct)
  case 1
  then show ?case by simp
next
  case (2 x)
  then show ?case by (simp add: split_on_no_sep)
next
  case (3 x y ys)
  then show ?case by (simp add: split_on_append)
qed

lemma split_on_segments: "\<forall>s \<in> set (split_on sep t). sep \<notin> set s"
  by (induction t) (auto split: list.splits)

lemma join_split_on: "join [sep] (split_on sep t) = t"
proof (induction t)
  case Nil
  then show ?case by simp
next
  case (Cons c cs)
  show ?case
  proof (cases "c = sep")
    case True
    with Cons show ?thesis
      by (cases "split_on sep cs") (auto simp: split_on_nonempty)
  next
    case False
    with Cons show ?thesis
      by (cases "split_on sep cs"; cases "tl (split_on sep cs)") (auto simp: split_on_nonempty)
  qed
qed

text \<open>
  C6. A topic is the join of its segments, none of which contains a slash. The device
  identity taken from the topic is the second segment when there are three segments or
  more, the first segment when there are exactly two, and the text \<open>unknown\<close> otherwise,
  that is for a topic of one segment, which has no second-to-last segment.
\<close>

theorem extractDeviceIdFromTopic_by_segments:
  assumes "segs \<noteq> []" and "\<forall>s \<in> set segs. CHR ''/'' \<notin> set s"
  shows "extractDeviceIdFromTopic (join ''/'' segs) =
           (if length segs \<ge> 3 then segs ! 1
            else if length segs = 2 then segs ! 0
            else ''unknown'')"
proof -
  have parts: "split_on CHR ''/'' (join ''/'' segs) = segs"
    using assms split_on_join [of segs "CHR ''/''"] by simp
  have "length segs > 0"
    using assms(1) by simp
  then have one: "length segs = 1" if "\<not> length segs \<ge> 3" "length segs \<noteq> 2"
    using that by arith
  show ?thesis
    unfolding extractDeviceIdFromTopic_def parts Let_def
    using one by (auto simp: element_def)
qed

theorem extractDeviceIdFromTopic_by_segments_witness:
  "extractDeviceIdFromTopic ''smtrack/dev42/logs'' = ''dev42''
   \<and> extractDeviceIdFromTopic ''dev42/logs'' = ''dev42''
   \<and> extractDeviceIdFromTopic ''logs'' = ''unknown''"
proof -
  have three: "[''smtrack'', ''dev42'', ''logs''] \<noteq> []"
      "\<forall>s \<in> set [''smtrack'', ''dev42'', ''logs'']. CHR ''/'' \<notin> set s"
    and two: "[''dev42'', ''logs''] \<noteq> []" "\<forall>s \<in> set [''dev42'', ''logs'']. CHR ''/'' \<notin> set s"
    and one: "[''logs''] \<noteq> []" "\<forall>s \<in> set [''logs'']. CHR ''/'' \<notin> set s"
    by simp_all
  show ?thesis
    using extractDeviceIdFromTopic_by_segments [OF three]
      extractDeviceIdFromTopic_by_segments [OF two]
      extractDeviceIdFromTopic_by_segments [OF one]
    by simp
qed

section \<open>Normalisation\<close>

text \<open>\<open>str_includes\<close> is the substring test.\<close>

lemma startsWith_iff: "startsWith s p \<longleftrightarrow> (\<exists>b. s = p @ b)"
  unfolding startsWith_def
  by (metis append_eq_conv_conj append_take_drop_id)

lemma startsWith_str_includes: "startsWith s p \<Longrightarrow> str_includes s p"
  by (cases s) (auto simp: startsWith_def)

lemma str_includes_iff: "str_includes s p \<longleftrightarrow> (\<exists>a b. s = a @ p @ b)"
proof (induction s)
  case Nil
  then show ?case by auto
next
  case (Cons c cs)
  show ?case
  proof
    assume "str_includes (c # cs) p"
    then consider "startsWith (c # cs) p" | "str_includes cs p" by auto
    then show "\<exists>a b. c # cs = a @ p @ b"
    proof cases
      case 1
      then obtain b where "c # cs = p @ b" by (auto simp: startsWith_iff)
      then have "c # cs = [] @ p @ b" by simp
      then show ?thesis by blast
    next
      case 2
      with Cons obtain a b where "cs = a @ p @ b" by blast
      then have "c # cs = (c # a) @ p @ b" by simp
      then show ?thesis by blast
    qed
  next
    assume "\<exists>a b. c # cs = a @ p @ b"
    then obtain a b where ab: "c # cs = a @ p @ b" by blast
    show "str_includes (c # cs) p"
    proof (cases a)
      case Nil
      with ab have "startsWith (c # cs) p" by (auto simp: startsWith_iff)
      then show ?thesis by (rule startsWith_str_includes)
    next
      case (Cons x xs)
      with ab have "cs = xs @ p @ b" by simp
      with Cons.IH show ?thesis by auto
    qed
  qed
qed

lemma createPlainTextMessage_returns:
  "\<exists>m. createPlainTextMessage now text topic = Inr m"
  by (simp add: createPlainTextMessage_def inferMessageType_def continue_def get_property_def
      content_scan_def)

text \<open>
  C3. Normalisation is total: for every topic and every payload text, whatever
  \<^verbatim>\<open>JSON.parse\<close> makes of the text (an error, or a value of any shape) and whatever the
  \<^verbatim>\<open>Date\<close> constructor does, an entry is returned and nothing is thrown.
\<close>

theorem normalize_total:
  "\<exists>entry. normalize JSON_parse new_Date now now' topic messageStr = Inr entry"
proof -
  obtain m where m: "createPlainTextMessage now messageStr topic = Inr m"
    using createPlainTextMessage_returns by blast
  then show ?thesis
    by (auto simp: normalize_def continue_def catch_def split: sum.splits)
qed

theorem normalize_total_witness:
  "\<exists>entry. normalize example_JSON_parse example_new_Date (Date 5) (Date 6)
              ''smtrack/dev42/logs'' ''hello'' = Inr entry"
  using normalize_total [of example_JSON_parse example_new_Date "Date 5" "Date 6"
      "''smtrack/dev42/logs''" "''hello''"]
  by simp

text \<open>
  The first steps of the precedence, on any payload: an explicit severity text that is
  one of the aliases decides, whatever the topic; without an explicit severity, a topic
  that contains \<open>/error\<close> gives \<open>error\<close>, whatever the content.
\<close>

lemma explicit_severity_decides:
  assumes "get_property parsedMessage ''severity'' = Inr (JStr s)" and "s \<noteq> []"
    and "map_of severityMap (toLowerCase s) = Some v"
  shows "case normalizeMessage new_Date now parsedMessage topic of
           Inr m \<Rightarrow> iot_severity m = LogSeverity_value v
         | Inl e \<Rightarrow> \<exists>ts. get_property parsedMessage ''timestamp'' = Inr ts \<and> truthy ts
                        \<and> new_Date ts = Inl e"
proof -
  obtain ps where ps: "parsedMessage = JObj ps"
    using assms(1) by (cases parsedMessage) (auto simp: get_property_def)
  have sev: "mapToLogSeverity (JStr s) = Inr (LogSeverity_value v)"
    using assms(2,3) by (simp add: mapToLogSeverity_def severityMap_get_def)
  have "truthy (LogSeverity_value v)" by (cases v) simp_all
  then show ?thesis
    using assms(1) unfolding ps normalizeMessage_def
    by (auto simp: continue_def sev get_property_def split: sum.splits)
qed

lemma error_topic_without_severity:
  assumes "get_property parsedMessage ''severity'' = Inr sv" and "\<not> truthy sv"
    and "str_includes topic ''/error''"
  shows "case normalizeMessage new_Date now parsedMessage topic of
           Inr m \<Rightarrow> iot_severity m = LogSeverity_value ERROR
         | Inl e \<Rightarrow> \<exists>ts. get_property parsedMessage ''timestamp'' = Inr ts \<and> truthy ts
                        \<and> new_Date ts = Inl e"
proof -
  have ok: "get_property parsedMessage k = Inr (case parsedMessage of
              JObj ps \<Rightarrow> (case map_of ps k of None \<Rightarrow> JUndefined | Some x \<Rightarrow> x) | _ \<Rightarrow> JUndefined)" for k
    using assms(1) by (cases parsedMessage) (auto simp: get_property_def)
  have sev: "mapToLogSeverity sv = Inr JUndefined"
    using assms(2) by (simp add: mapToLogSeverity_def)
  have infer: "inferMessageType topic parsedMessage = Inr (LogSeverity_value ERROR)"
    using assms(3) by (simp add: inferMessageType_def)
  show ?thesis
    using assms(1) unfolding normalizeMessage_def
    by (auto simp: continue_def sev infer ok split: sum.splits)
qed

text \<open>
  C4. The classification does not follow the stated precedence on every payload. The
  severity text \<open>constructor\<close> is not one of the aliases, the topic \<open>iot/d1/logs\<close> has no
  hint, the payload has no level and no keyword, so the stated precedence gives \<open>info\<close>
  (steps 2 to 5, which \<open>inferMessageType\<close> computes). The lookup in the alias table finds
  the inherited property \<^verbatim>\<open>Object.prototype.constructor\<close>, which is truthy, and the
  message gets that function as its severity.
\<close>

theorem severity_constructor_not_classified:
  "map_of severityMap (toLowerCase ''constructor'') = None
   \<and> inferMessageType ''iot/d1/logs''
        (JObj [(''severity'', JStr ''constructor''), (''message'', JStr ''x'')])
       = Inr (LogSeverity_value INFO)
   \<and> normalizeMessage example_new_Date (Date 5)
        (JObj [(''severity'', JStr ''constructor''), (''message'', JStr ''x'')]) ''iot/d1/logs''
       = Inr \<lparr> iot_deviceId = JStr ''d1'', iot_message = JStr ''x'',
               iot_severity = JBuiltin ObjectConstructor, iot_metadata = JUndefined,
               iot_timestamp = Some (Date 5) \<rparr>"
  by (simp add: normalizeMessage_def inferMessageType_def content_scan_def keyword_scan_def
      continue_def get_property_def mapToLogSeverity_def toLowerCase_def toLowerCase_char_def
      severityMap_get_def severityMap_def extractDeviceIdFromTopic_def Object_prototype_get_def
      startsWith_def QuoteJSONString_def QuoteJSONChar_def)

text \<open>
  C5, as stated, fails: a payload with the explicit severity \<open>warn\<close> on the topic
  \<open>iot/d1/error\<close> is classified as \<open>warning\<close>.
\<close>

theorem explicit_warn_on_error_topic_counterexample:
  "str_includes ''iot/d1/error'' ''/error''
   \<and> normalizeMessage example_new_Date (Date 5)
        (JObj [(''severity'', JStr ''warn''), (''message'', JStr ''disk'')]) ''iot/d1/error''
       = Inr \<lparr> iot_deviceId = JStr ''d1'', iot_message = JStr ''disk'',
               iot_severity = JStr ''warning'', iot_metadata = JUndefined,
               iot_timestamp = Some (Date 5) \<rparr>"
  by (simp add: normalizeMessage_def continue_def get_property_def mapToLogSeverity_def
      toLowerCase_def toLowerCase_char_def severityMap_get_def severityMap_def
      extractDeviceIdFromTopic_def startsWith_def)

lemma mapToLogSeverity_lower_warn:
  "toLowerCase given = ''warn'' \<Longrightarrow> mapToLogSeverity (JStr given) = Inr (LogSeverity_value WARNING)"
  by (cases "given = []") (auto simp: mapToLogSeverity_def severityMap_get_def severityMap_def toLowerCase_def)

text \<open>A plain text message is classified from the topic first.\<close>

lemma inferMessageType_plain_text:
  "\<exists>v. inferMessageType topic (JObj [(''message'', JStr content)]) = Inr v
       \<and> (str_includes topic ''/error'' \<longrightarrow> v = LogSeverity_value ERROR)"
  by (simp add: inferMessageType_def continue_def get_property_def content_scan_def)

lemma severity_convertToLogEntry: "severity (convertToLogEntry now m) = iot_severity m"
  by (simp add: convertToLogEntry_def Let_def)

text \<open>
  C5, amended. A payload that parses to an object whose explicit severity is the text
  \<open>warn\<close>, in any letter case, gives an entry classified as \<open>warning\<close> whatever its topic,
  also when the topic contains \<open>/error\<close>, provided the payload has no timestamp or the
  \<^verbatim>\<open>Date\<close> constructor accepts its timestamp: the explicit severity is looked at before
  the topic. When the \<^verbatim>\<open>Date\<close> constructor throws on the timestamp, the explicit severity
  is lost with the rest of the payload: the payload text is taken as a plain text message
  and classified as a plain text is, from the topic first, so as \<open>error\<close> when the topic
  contains \<open>/error\<close>.
\<close>

theorem explicit_warn_is_warning:
  assumes "JSON_parse messageStr = Inr parsedMessage"
    and "get_property parsedMessage ''severity'' = Inr (JStr given)"
    and "toLowerCase given = ''warn''"
  shows "\<exists>entry ts. normalize JSON_parse new_Date now now' topic messageStr = Inr entry
           \<and> get_property parsedMessage ''timestamp'' = Inr ts
           \<and> (if truthy ts \<and> isl (new_Date ts)
               then Inr (severity entry) = inferMessageType topic (JObj [(''message'', JStr messageStr)])
                    \<and> (str_includes topic ''/error'' \<longrightarrow> severity entry = LogSeverity_value ERROR)
               else severity entry = LogSeverity_value WARNING)"
proof -
  obtain ps where ps: "parsedMessage = JObj ps"
    using assms(2) by (cases parsedMessage) (auto simp: get_property_def)
  define ts where "ts = (case map_of ps ''timestamp'' of None \<Rightarrow> JUndefined | Some x \<Rightarrow> x)"
  have ts: "get_property parsedMessage ''timestamp'' = Inr ts"
    by (simp add: ps get_property_def ts_def)
  note sev = mapToLogSeverity_lower_warn [OF assms(3)]
  obtain v where v: "inferMessageType topic (JObj [(''message'', JStr messageStr)]) = Inr v"
    "str_includes topic ''/error'' \<longrightarrow> v = LogSeverity_value ERROR"
    using inferMessageType_plain_text by blast
  show ?thesis
  proof (cases "truthy ts \<and> isl (new_Date ts)")
    case True
    then obtain e where "new_Date ts = Inl e"
      by (cases "new_Date ts") auto
    with True ts assms(1,2) have "normalizeMessage new_Date now parsedMessage topic = Inl e"
      unfolding ps normalizeMessage_def
      by (auto simp: continue_def sev get_property_def split: sum.splits)
    then have "normalize JSON_parse new_Date now now' topic messageStr
        = Inr (convertToLogEntry now' \<lparr> iot_deviceId = JStr (extractDeviceIdFromTopic topic),
                 iot_message = JStr messageStr, iot_severity = v, iot_metadata = JUndefined,
                 iot_timestamp = Some now \<rparr>)"
      by (simp add: normalize_def assms(1) continue_def catch_def createPlainTextMessage_def v)
    then obtain entry where entry: "normalize JSON_parse new_Date now now' topic messageStr = Inr entry"
      "severity entry = v"
      by (simp add: severity_convertToLogEntry)
    have "Inr (severity entry) = inferMessageType topic (JObj [(''message'', JStr messageStr)])"
      by (simp only: entry(2) v(1))
    moreover have "str_includes topic ''/error'' \<longrightarrow> severity entry = LogSeverity_value ERROR"
      using v(2) by (simp only: entry(2))
    ultimately have "if truthy ts \<and> isl (new_Date ts)
        then Inr (severity entry) = inferMessageType topic (JObj [(''message'', JStr messageStr)])
             \<and> (str_includes topic ''/error'' \<longrightarrow> severity entry = LogSeverity_value ERROR)
        else severity entry = LogSeverity_value WARNING"
      using True by (simp only: if_True simp_thms)
    with entry(1) ts show ?thesis
      by blast
  next
    case False
    then have "\<exists>date. (if truthy ts then new_Date ts else Inr now) = Inr date"
      by (cases "new_Date ts") auto
    then obtain date where "(if truthy ts then new_Date ts else Inr now) = Inr date"
      by blast
    with ts assms(2) obtain m where m: "normalizeMessage new_Date now parsedMessage topic = Inr m"
      "iot_severity m = LogSeverity_value WARNING"
      unfolding ps normalizeMessage_def
      by (auto simp: continue_def sev get_property_def split: sum.splits)
    then have "normalize JSON_parse new_Date now now' topic messageStr = Inr (convertToLogEntry now' m)"
      by (simp add: normalize_def assms(1) continue_def catch_def)
    then obtain entry where entry: "normalize JSON_parse new_Date now now' topic messageStr = Inr entry"
      "severity entry = LogSeverity_value WARNING"
      using m(2) by (simp add: severity_convertToLogEntry)
    have "if truthy ts \<and> isl (new_Date ts)
        then Inr (severity entry) = inferMessageType topic (JObj [(''message'', JStr messageStr)])
             \<and> (str_includes topic ''/error'' \<longrightarrow> severity entry = LogSeverity_value ERROR)
        else severity entry = LogSeverity_value WARNING"
      using False entry(2) by (simp only: if_False)
    with entry(1) ts show ?thesis
      by blast
  qed
qed

text \<open>
  Both cases on the topic \<open>iot/d1/error\<close>: the payload with severity \<open>warn\<close> and no
  timestamp is classified as \<open>warning\<close>; with a timestamp that is an object with a property
  \<open>toString\<close>, on which the \<^verbatim>\<open>Date\<close> constructor throws, it is classified as \<open>error\<close>.
\<close>

theorem explicit_warn_is_warning_witness:
  "(\<exists>entry. normalize (example_parse payload_warn) example_Date_constructor (Date 5) (Date 6)
                 ''iot/d1/error'' (JSON_stringify_object payload_warn) = Inr entry
            \<and> severity entry = JStr ''warning'')
   \<and> (\<exists>entry. normalize (example_parse payload_warn_timestamp_object) example_Date_constructor
                   (Date 5) (Date 6) ''iot/d1/error''
                   (JSON_stringify_object payload_warn_timestamp_object) = Inr entry
              \<and> severity entry = JStr ''error'')"
proof -
  have parsed: "example_parse ps (JSON_stringify_object ps) = Inr (JObj ps)" for ps
    by (simp add: example_parse_def)
  have sev: "get_property (JObj payload_warn) ''severity'' = Inr (JStr ''warn'')"
    "get_property (JObj payload_warn_timestamp_object) ''severity'' = Inr (JStr ''warn'')"
    by (simp_all add: get_property_def payload_warn_def payload_warn_timestamp_object_def)
  have low: "toLowerCase ''warn'' = ''warn''"
    by (simp add: toLowerCase_def toLowerCase_char_def)
  have ts: "get_property (JObj payload_warn) ''timestamp'' = Inr JUndefined"
    "get_property (JObj payload_warn_timestamp_object) ''timestamp''
       = Inr (JObj [(''toString'', JNum ''1'')])"
    by (simp_all add: get_property_def payload_warn_def payload_warn_timestamp_object_def)
  have thrown: "isl (example_Date_constructor (JObj [(''toString'', JNum ''1'')]))"
    by (simp add: example_Date_constructor_def)
  have topic: "str_includes ''iot/d1/error'' ''/error''"
    by (simp add: startsWith_def)
  note plain = explicit_warn_is_warning [where JSON_parse = "example_parse payload_warn"
      and messageStr = "JSON_stringify_object payload_warn" and parsedMessage = "JObj payload_warn"
      and given = "''warn''" and new_Date = example_Date_constructor
      and now = "Date 5" and now' = "Date 6" and topic = "''iot/d1/error''", OF parsed sev(1) low]
  then obtain entry1 ts1 where
    e1: "normalize (example_parse payload_warn) example_Date_constructor (Date 5) (Date 6)
           ''iot/d1/error'' (JSON_stringify_object payload_warn) = Inr entry1"
      "get_property (JObj payload_warn) ''timestamp'' = Inr ts1"
      "if truthy ts1 \<and> isl (example_Date_constructor ts1)
       then Inr (severity entry1)
              = inferMessageType ''iot/d1/error''
                  (JObj [(''message'', JStr (JSON_stringify_object payload_warn))])
            \<and> (str_includes ''iot/d1/error'' ''/error'' \<longrightarrow> severity entry1 = LogSeverity_value ERROR)
       else severity entry1 = LogSeverity_value WARNING"
    by blast
  from e1(2) have "ts1 = JUndefined"
    by (simp add: ts)
  with e1(3) have s1: "severity entry1 = JStr ''warning''"
    by simp
  note thrown_case = explicit_warn_is_warning [where JSON_parse = "example_parse payload_warn_timestamp_object"
      and messageStr = "JSON_stringify_object payload_warn_timestamp_object"
      and parsedMessage = "JObj payload_warn_timestamp_object"
      and given = "''warn''" and new_Date = example_Date_constructor
      and now = "Date 5" and now' = "Date 6" and topic = "''iot/d1/error''", OF parsed sev(2) low]
  then obtain entry2 ts2 where
    e2: "normalize (example_parse payload_warn_timestamp_object) example_Date_constructor (Date 5) (Date 6)
           ''iot/d1/error'' (JSON_stringify_object payload_warn_timestamp_object) = Inr entry2"
      "get_property (JObj payload_warn_timestamp_object) ''timestamp'' = Inr ts2"
      "if truthy ts2 \<and> isl (example_Date_constructor ts2)
       then Inr (severity entry2)
              = inferMessageType ''iot/d1/error''
                  (JObj [(''message'', JStr (JSON_stringify_object payload_warn_timestamp_object))])
            \<and> (str_includes ''iot/d1/error'' ''/error'' \<longrightarrow> severity entry2 = LogSeverity_value ERROR)
       else severity entry2 = LogSeverity_value WARNING"
    by blast
  from e2(2) have "ts2 = JObj [(''toString'', JNum ''1'')]"
    by (simp add: ts)
  with thrown have t2: "truthy ts2 \<and> isl (example_Date_constructor ts2)"
    by simp
  from e2(3) have "str_includes ''iot/d1/error'' ''/error'' \<longrightarrow> severity entry2 = LogSeverity_value ERROR"
    unfolding if_P [OF t2] by blast
  with topic have "severity entry2 = LogSeverity_value ERROR"
    by blast
  then have s2: "severity entry2 = JStr ''error''"
    by simp
  from e1(1) s1 e2(1) s2 show ?thesis
    by blast
qed

section \<open>Flushing\<close>

lemma flushLogs_empty: "buffer s = [] \<Longrightarrow> flushLogs now s = (None, s)"
  by (simp add: flushLogs_def)

lemma flushLogs_detach:
  assumes "buffer s \<noteq> []"
  shows "\<exists>fl s'. flushLogs now s = (Some fl, s')
        \<and> arrays s' (logsToSend fl) = buffer s \<and> buffer s' = []
        \<and> logsToSend fl = next_ref s \<and> logBuffer s' = Suc (next_ref s) \<and> next_ref s' = next_ref s + 2
        \<and> (\<forall>r. r < next_ref s \<longrightarrow> arrays s' r = arrays s r)
        \<and> isShuttingDown s' = isShuttingDown s"
  using assms by (simp add: flushLogs_def buffer_def Let_def)

lemma stored_flushLogs: "stored (flushLogs now s) = buffer s"
proof (cases "buffer s = []")
  case True
  then show ?thesis by (simp add: flushLogs_empty stored_def)
next
  case False
  from flushLogs_detach [OF this, of now] obtain fl s' where
    "flushLogs now s = (Some fl, s')" "arrays s' (logsToSend fl) = buffer s" "buffer s' = []"
    by blast
  then show ?thesis by (simp add: stored_def)
qed

lemma flushLogs_effect:
  "call_effect s [] (fst (flushLogs now s)) (snd (flushLogs now s))"
proof (cases "buffer s = []")
  case True
  then show ?thesis by (simp add: flushLogs_empty call_effect_def)
next
  case False
  from flushLogs_detach [OF this, of now] show ?thesis
    by (auto simp: call_effect_def)
qed

text \<open>
  C10. Flushing an empty buffer is a no-op: with a buffer of length 0, \<open>flushLogs\<close>, and so
  \<open>forceFlush\<close>, returns at once, starts no delivery and leaves the whole state of the
  service as it was, in particular the buffer, the last flush time and the last error.
\<close>

theorem flushLogs_empty_noop:
  assumes "length (buffer s) = 0"
  shows "flushLogs now s = (None, s) \<and> forceFlush now s = (None, s)"
  using assms by (simp add: flushLogs_def forceFlush_def)

theorem flushLogs_empty_noop_witness:
  "length (buffer new_LokiService) = 0
   \<and> flushLogs (Date 0) new_LokiService = (None, new_LokiService)
   \<and> forceFlush (Date 0) new_LokiService = (None, new_LokiService)"
proof -
  have h: "length (buffer new_LokiService) = 0"
    by (simp add: buffer_def new_LokiService_def)
  show ?thesis
    using h flushLogs_empty_noop [OF h, of "Date 0"] by simp
qed

text \<open>
  How a failed delivery ends, whatever the batch and the live buffer: the last error is the
  description of the failure; with 1000 entries or more in the live buffer the batch is
  dropped and a warning is logged; with fewer, the batch is put back in front of the live
  buffer when \<^verbatim>\<open>unshift\<close> takes that many arguments, and otherwise \<^verbatim>\<open>unshift\<close> throws,
  nothing is put back and the promise of \<^verbatim>\<open>flushLogs\<close> is rejected.
\<close>

lemma flushLogs_settled_failure:
  "flushLogs_settled max_arguments (Some error) now fl s = (r, s') \<Longrightarrow>
     lastError s' = Some (errorMessage error)
     \<and> (if length (buffer s) \<ge> 1000
        then r = None \<and> buffer s' = buffer s
             \<and> Logger_warn (''Log buffer full, dropping ''
                              @ string_of_nat (length (arrays s (logsToSend fl))) @ '' logs'') None
                 \<in> set (logger s')
        else if length (arrays s (logsToSend fl)) \<le> max_arguments
        then r = None \<and> buffer s' = arrays s (logsToSend fl) @ buffer s
        else r = Some RangeError \<and> buffer s' = buffer s)"
  by (auto simp: flushLogs_settled_def log_call_def buffer_def Let_def spread_def unshift_def
      split: if_splits)

lemma flushLogs_settled_frame:
  "logBuffer (snd (flushLogs_settled max_arguments outcome now fl s)) = logBuffer s"
  "next_ref (snd (flushLogs_settled max_arguments outcome now fl s)) = next_ref s"
  "isShuttingDown (snd (flushLogs_settled max_arguments outcome now fl s)) = isShuttingDown s"
  "r \<noteq> logBuffer s \<Longrightarrow> arrays (snd (flushLogs_settled max_arguments outcome now fl s)) r = arrays s r"
  by (cases outcome; simp add: flushLogs_settled_def log_call_def Let_def spread_def unshift_def)+

lemma buffer_flushLogs_settled:
  "buffer (snd (flushLogs_settled max_arguments outcome now fl s)) =
     (if outcome \<noteq> None \<and> length (buffer s) < 1000 \<and> length (batch_of s fl) \<le> max_arguments
      then batch_of s fl @ buffer s else buffer s)"
  by (cases outcome)
     (simp_all add: flushLogs_settled_def log_call_def Let_def spread_def unshift_def buffer_def
       batch_of_def)

section \<open>Appending\<close>

lemma populated_with_timestamp: "\<not> invalid_entry e \<Longrightarrow> populated (with_timestamp now e)"
  by (simp add: populated_def invalid_entry_def with_timestamp_def)

lemma buffer_push: "buffer (push es s) = buffer s @ es"
  by (simp add: push_def buffer_def)

lemma push_frame:
  "logBuffer (push es s) = logBuffer s" "next_ref (push es s) = next_ref s"
  "isShuttingDown (push es s) = isShuttingDown s"
  "r \<noteq> logBuffer s \<Longrightarrow> arrays (push es s) r = arrays s r"
  by (simp_all add: push_def)

lemma warn_invalid_frame:
  "arrays (warn_invalid s entries) = arrays s"
  "logBuffer (warn_invalid s entries) = logBuffer s"
  "next_ref (warn_invalid s entries) = next_ref s"
  "isShuttingDown (warn_invalid s entries) = isShuttingDown s"
  unfolding warn_invalid_def
  by (induction entries arbitrary: s) (auto simp: log_call_def)

lemma buffer_warn_invalid: "buffer (warn_invalid s entries) = buffer s"
  by (simp add: buffer_def warn_invalid_frame)

text \<open>A flush after an append: the effect of the two together.\<close>

lemma call_effect_push_flush:
  assumes "logBuffer t = logBuffer s" "next_ref t = next_ref s"
    and "\<forall>r. r \<noteq> logBuffer s \<longrightarrow> arrays t r = arrays s r" and "buffer t = buffer s @ es"
  shows "call_effect s es (fst (flushLogs now t)) (snd (flushLogs now t))"
    and "call_effect s es None t"
  using flushLogs_effect [of t now] assms
  by (auto simp: call_effect_def split: option.splits)

lemma pushLog_effect:
  "call_effect s (appended_by (PushLog entry now) s)
     (fst (pushLog batchSize entry now s)) (snd (pushLog batchSize entry now s))"
proof -
  have quiet: "call_effect s [] None (log_call c s)" for c
    by (simp add: call_effect_def log_call_def buffer_def)
  have "call_effect s [with_timestamp now entry]
          (fst (flushLogs now (push [with_timestamp now entry] s)))
          (snd (flushLogs now (push [with_timestamp now entry] s)))"
    and "call_effect s [with_timestamp now entry] None (push [with_timestamp now entry] s)"
    by (rule call_effect_push_flush; simp add: push_frame buffer_push)+
  with quiet show ?thesis
    by (simp add: pushLog_def Let_def)
qed

lemma pushLogs_effect:
  "call_effect s (appended_by (PushLogs entries now max_arguments) s)
     (flush_of (fst (pushLogs max_arguments batchSize entries now s)))
     (snd (pushLogs max_arguments batchSize entries now s))"
proof -
  let ?es = "map (with_timestamp now) (filter (\<lambda>entry. \<not> invalid_entry entry) entries)"
  let ?t = "push ?es (warn_invalid s entries)"
  have quiet: "call_effect s [] None (log_call c s)" for c
    by (simp add: call_effect_def log_call_def buffer_def)
  have thrown: "call_effect s [] None (warn_invalid s entries)"
    by (simp add: call_effect_def warn_invalid_frame buffer_warn_invalid)
  have "call_effect s ?es (fst (flushLogs now ?t)) (snd (flushLogs now ?t))"
    and "call_effect s ?es None ?t"
    by (rule call_effect_push_flush;
        simp add: push_frame buffer_push warn_invalid_frame buffer_warn_invalid)+
  with quiet thrown show ?thesis
    by (simp add: pushLogs_def Let_def spread_def flush_of_def)
qed

lemma timer_tick_effect:
  "call_effect s [] (fst (timer_tick now s)) (snd (timer_tick now s))"
  using flushLogs_effect [of s now]
  by (simp add: timer_tick_def) (simp add: call_effect_def)

lemma forceFlush_effect:
  "call_effect s [] (fst (forceFlush now s)) (snd (forceFlush now s))"
  using flushLogs_effect [of s now] by (simp add: forceFlush_def)

lemma onModuleDestroy_effect:
  "call_effect s [] (fst (onModuleDestroy now s)) (snd (onModuleDestroy now s))"
proof -
  let ?t = "log_call (Logger_log (''Flushing '' @ string_of_nat (length (buffer (s\<lparr> isShuttingDown := True \<rparr>)))
                                    @ '' remaining logs before shutdown''))
              (s\<lparr> isShuttingDown := True \<rparr>)"
  have "call_effect s [] (fst (flushLogs now ?t)) (snd (flushLogs now ?t))"
    by (rule call_effect_push_flush) (simp_all add: log_call_def buffer_def)
  moreover have "call_effect s [] None (s\<lparr> isShuttingDown := True \<rparr>)"
    by (simp add: call_effect_def buffer_def)
  ultimately show ?thesis
    by (simp add: onModuleDestroy_def Let_def)
qed

lemma stored_call_effect: "call_effect s es fl s' \<Longrightarrow> stored (fl, s') = buffer s @ es"
  by (cases fl) (simp_all add: call_effect_def stored_def)

section \<open>Events while deliveries are in flight\<close>

lemma service_started [simp]: "service (started fl s sys) = s"
  and flights_started: "flights (started fl s sys) = flights sys @ (case fl of None \<Rightarrow> [] | Some f \<Rightarrow> [f])"
  and service_rejected [simp]: "service (rejected r s sys) = s"
  and flights_rejected [simp]: "flights (rejected r s sys) = flights sys"
  by (simp_all add: started_def rejected_def)

lemma batches_unchanged:
  assumes "consistent sys"
    and "\<forall>r. r < next_ref (service sys) \<and> r \<noteq> logBuffer (service sys) \<longrightarrow> arrays s' r = arrays (service sys) r"
    and "set fs \<subseteq> set (flights sys)"
  shows "map (batch_of s') fs = map (batch_of (service sys)) fs"
  using assms by (auto simp: consistent_def batch_of_def)

lemma started_effect:
  assumes "consistent sys" and "call_effect (service sys) es fl s'"
  shows "consistent (started fl s' sys)"
    and "next_ref (service sys) \<le> next_ref s'"
    and "\<forall>r. r < next_ref (service sys) \<and> r \<noteq> logBuffer (service sys) \<longrightarrow> arrays s' r = arrays (service sys) r"
    and "logBuffer s' = logBuffer (service sys) \<or> next_ref (service sys) \<le> logBuffer s'"
    and "mset (held (started fl s' sys)) = mset (held sys) + mset es"
proof -
  show frame: "\<forall>r. r < next_ref (service sys) \<and> r \<noteq> logBuffer (service sys) \<longrightarrow> arrays s' r = arrays (service sys) r"
    using assms(2) by (simp add: call_effect_def)
  show "next_ref (service sys) \<le> next_ref s'"
    using assms(2) by (cases fl) (auto simp: call_effect_def)
  show "logBuffer s' = logBuffer (service sys) \<or> next_ref (service sys) \<le> logBuffer s'"
    using assms(2) by (cases fl) (auto simp: call_effect_def)
  show "consistent (started fl s' sys)"
    using assms by (cases fl) (auto simp: consistent_def call_effect_def flights_started)
  have old: "map (batch_of s') (flights sys) = map (batch_of (service sys)) (flights sys)"
    using batches_unchanged [OF assms(1) frame, of "flights sys"] by simp
  show "mset (held (started fl s' sys)) = mset (held sys) + mset es"
    using assms(2) by (cases fl) (auto simp: held_def flights_started old call_effect_def batch_of_def)
qed

lemma mset_batches_take_drop:
  assumes "i < length fs"
  shows "mset (concat (map g fs)) = mset (concat (map g (take i fs @ drop (Suc i) fs))) + mset (g (fs ! i))"
proof -
  have "fs = take i fs @ fs ! i # drop (Suc i) fs"
    using assms by (rule id_take_nth_drop)
  then have "mset (concat (map g fs)) = mset (concat (map g (take i fs @ fs ! i # drop (Suc i) fs)))"
    by simp
  then show ?thesis by simp
qed

lemma settle_effect:
  assumes "consistent sys" and "i < length (flights sys)"
  shows "consistent (step batchSize (Settle i outcome now max_arguments) sys)"
    and "next_ref (service (step batchSize (Settle i outcome now max_arguments) sys)) = next_ref (service sys)"
    and "logBuffer (service (step batchSize (Settle i outcome now max_arguments) sys)) = logBuffer (service sys)"
    and "\<forall>r. r \<noteq> logBuffer (service sys) \<longrightarrow>
           arrays (service (step batchSize (Settle i outcome now max_arguments) sys)) r = arrays (service sys) r"
    and "mset (held (step batchSize (Settle i outcome now max_arguments) sys))
           + mset (delivered_by (Settle i outcome now max_arguments) sys)
           + mset (discarded_by (Settle i outcome now max_arguments) sys)
         = mset (held sys)"
proof -
  let ?s = "service sys"
  let ?f = "flights sys ! i"
  let ?s' = "snd (flushLogs_settled max_arguments outcome now ?f ?s)"
  let ?fs = "take i (flights sys) @ drop (Suc i) (flights sys)"
  have sub: "set ?fs \<subseteq> set (flights sys)"
    using set_take_subset [of i "flights sys"] set_drop_subset [of "Suc i" "flights sys"] by auto
  have svc: "service (step batchSize (Settle i outcome now max_arguments) sys) = ?s'"
    and fls: "flights (step batchSize (Settle i outcome now max_arguments) sys) = ?fs"
    using assms(2) by (simp_all add: rejected_def)
  show "next_ref (service (step batchSize (Settle i outcome now max_arguments) sys)) = next_ref ?s"
    and "logBuffer (service (step batchSize (Settle i outcome now max_arguments) sys)) = logBuffer ?s"
    unfolding svc by (simp_all add: flushLogs_settled_frame)
  show frame: "\<forall>r. r \<noteq> logBuffer ?s \<longrightarrow>
      arrays (service (step batchSize (Settle i outcome now max_arguments) sys)) r = arrays ?s r"
    unfolding svc by (simp add: flushLogs_settled_frame)
  show "consistent (step batchSize (Settle i outcome now max_arguments) sys)"
    using assms(1) sub unfolding consistent_def svc fls
    by (auto simp: flushLogs_settled_frame)
  have old: "map (batch_of ?s') ?fs = map (batch_of ?s) ?fs"
    using batches_unchanged [OF assms(1) _ sub, of ?s'] by (simp add: flushLogs_settled_frame)
  have all: "mset (concat (map (batch_of ?s) (flights sys)))
             = mset (concat (map (batch_of ?s) ?fs)) + mset (batch_of ?s ?f)"
    using assms(2) by (rule mset_batches_take_drop)
  show "mset (held (step batchSize (Settle i outcome now max_arguments) sys))
           + mset (delivered_by (Settle i outcome now max_arguments) sys)
           + mset (discarded_by (Settle i outcome now max_arguments) sys)
         = mset (held sys)"
    unfolding held_def svc fls old
    using assms(2) all by (auto simp: buffer_flushLogs_settled)
qed

lemma step_effect:
  assumes "consistent sys"
  shows "consistent (step batchSize e sys)"
    and "next_ref (service sys) \<le> next_ref (service (step batchSize e sys))"
    and "\<forall>r. r < next_ref (service sys) \<and> r \<noteq> logBuffer (service sys) \<longrightarrow>
           arrays (service (step batchSize e sys)) r = arrays (service sys) r"
    and "logBuffer (service (step batchSize e sys)) = logBuffer (service sys)
         \<or> next_ref (service sys) \<le> logBuffer (service (step batchSize e sys))"
    and "mset (held (step batchSize e sys)) + mset (delivered_by e sys)
           + mset (discarded_by e sys)
         = mset (held sys) + mset (appended_by e (service sys))"
proof -
  have "consistent (step batchSize e sys)
    \<and> next_ref (service sys) \<le> next_ref (service (step batchSize e sys))
    \<and> (\<forall>r. r < next_ref (service sys) \<and> r \<noteq> logBuffer (service sys) \<longrightarrow>
           arrays (service (step batchSize e sys)) r = arrays (service sys) r)
    \<and> (logBuffer (service (step batchSize e sys)) = logBuffer (service sys)
         \<or> next_ref (service sys) \<le> logBuffer (service (step batchSize e sys)))
    \<and> mset (held (step batchSize e sys)) + mset (delivered_by e sys)
           + mset (discarded_by e sys)
         = mset (held sys) + mset (appended_by e (service sys))"
  proof (cases e)
    case (PushLog entry now)
    from started_effect [OF assms pushLog_effect [of "service sys" entry now batchSize]]
    show ?thesis unfolding PushLog by simp
  next
    case (PushLogs entries now max_arguments)
    let ?r = "pushLogs max_arguments batchSize entries now (service sys)"
    note eff = started_effect [OF assms pushLogs_effect [of "service sys" entries now max_arguments batchSize]]
    show ?thesis
    proof (cases "fst ?r")
      case (Inl x)
      then have "held (step batchSize e sys) = held (started None (snd ?r) sys)"
        and "consistent (step batchSize e sys) = consistent (started None (snd ?r) sys)"
        unfolding PushLogs by (simp_all add: held_def consistent_def flights_started)
      with eff Inl show ?thesis unfolding PushLogs by (simp add: flush_of_def)
    next
      case (Inr fl)
      with eff show ?thesis unfolding PushLogs by (simp add: flush_of_def)
    qed
  next
    case (Tick now)
    from started_effect [OF assms timer_tick_effect [of "service sys" now]]
    show ?thesis unfolding Tick by simp
  next
    case (ForceFlush now)
    from started_effect [OF assms forceFlush_effect [of "service sys" now]]
    show ?thesis unfolding ForceFlush by simp
  next
    case (Shutdown now)
    from started_effect [OF assms onModuleDestroy_effect [of "service sys" now]]
    show ?thesis unfolding Shutdown by simp
  next
    case (Settle i outcome now max_arguments)
    show ?thesis
    proof (cases "i < length (flights sys)")
      case True
      from settle_effect [OF assms True, where batchSize = batchSize and outcome = outcome and now = now and max_arguments = max_arguments]
      show ?thesis unfolding Settle by simp
    next
      case False
      with assms show ?thesis unfolding Settle by simp
    qed
  qed
  then show "consistent (step batchSize e sys)"
    and "next_ref (service sys) \<le> next_ref (service (step batchSize e sys))"
    and "\<forall>r. r < next_ref (service sys) \<and> r \<noteq> logBuffer (service sys) \<longrightarrow>
           arrays (service (step batchSize e sys)) r = arrays (service sys) r"
    and "logBuffer (service (step batchSize e sys)) = logBuffer (service sys)
         \<or> next_ref (service sys) \<le> logBuffer (service (step batchSize e sys))"
    and "mset (held (step batchSize e sys)) + mset (delivered_by e sys)
           + mset (discarded_by e sys)
         = mset (held sys) + mset (appended_by e (service sys))"
    by simp_all
qed

text \<open>Every system that the constructor and a run of events lead to is consistent.\<close>

lemma consistent_new_system: "consistent new_system"
  by (simp add: consistent_def new_system_def new_LokiService_def)

lemma run_effect:
  assumes "consistent sys"
  shows "consistent (run batchSize events sys)
       \<and> next_ref (service sys) \<le> next_ref (service (run batchSize events sys))
       \<and> (\<forall>r. r < next_ref (service sys) \<and> r \<noteq> logBuffer (service sys) \<longrightarrow>
              arrays (service (run batchSize events sys)) r = arrays (service sys) r)
       \<and> (logBuffer (service (run batchSize events sys)) = logBuffer (service sys)
           \<or> next_ref (service sys) \<le> logBuffer (service (run batchSize events sys)))
       \<and> mset (held (run batchSize events sys))
           + mset (delivered batchSize events sys)
           + mset (discarded batchSize events sys)
         = mset (held sys) + mset (appended batchSize events sys)"
  using assms
proof (induction events arbitrary: sys)
  case Nil
  then show ?case by simp
next
  case (Cons e es)
  let ?sys1 = "step batchSize e sys"
  note st = step_effect [OF Cons.prems, of batchSize e]
  note ih = Cons.IH [OF st(1)]
  have frame: "arrays (service (run batchSize es ?sys1)) r = arrays (service sys) r"
    if "r < next_ref (service sys)" "r \<noteq> logBuffer (service sys)" for r
  proof -
    have "arrays (service ?sys1) r = arrays (service sys) r" "r < next_ref (service ?sys1)"
      "r \<noteq> logBuffer (service ?sys1)"
      using st(2,3,4) that by auto
    then show ?thesis using ih by simp
  qed
  have buf: "logBuffer (service (run batchSize es ?sys1)) = logBuffer (service sys)
      \<or> next_ref (service sys) \<le> logBuffer (service (run batchSize es ?sys1))"
    using st(2,4) ih by auto
  have "mset (held (run batchSize es ?sys1))
          + (mset (delivered_by e sys) + mset (delivered batchSize es ?sys1))
          + (mset (discarded_by e sys) + mset (discarded batchSize es ?sys1))
        = mset (held sys)
          + (mset (appended_by e (service sys)) + mset (appended batchSize es ?sys1))"
    using st(5) ih by (simp add: ac_simps)
  with frame buf st ih show ?case by simp
qed

lemma consistent_run: "consistent (run batchSize events new_system)"
  using run_effect [OF consistent_new_system] by blast

section \<open>A sink outage\<close>

lemma run_append:
  "run batchSize (xs @ ys) sys
     = run batchSize ys (run batchSize xs sys)"
  by (induction xs arbitrary: sys) simp_all

lemma outage_Suc:
  "outage max_arguments (Suc n) = outage max_arguments n @ [PushLog entry_boot (Date 1), Settle 0 (Some (Error ''timeout'')) (Date 2) max_arguments]"
proof -
  have "replicate (Suc n) x = replicate n x @ [x]" for x :: "event list"
    by (simp add: replicate_append_same)
  then show ?thesis
    unfolding outage_def by (simp only: concat_append concat.simps append_Nil2)
qed

lemma appended_append:
  "appended batchSize (xs @ ys) sys
     = appended batchSize xs sys
       @ appended batchSize ys (run batchSize xs sys)"
  by (induction xs arbitrary: sys) simp_all

lemma delivered_append:
  "delivered batchSize (xs @ ys) sys
     = delivered batchSize xs sys
       @ delivered batchSize ys (run batchSize xs sys)"
  by (induction xs arbitrary: sys) simp_all

lemma discarded_append:
  "discarded batchSize (xs @ ys) sys
     = discarded batchSize xs sys
       @ discarded batchSize ys (run batchSize xs sys)"
  by (induction xs arbitrary: sys) simp_all

text \<open>
  One message during the outage, in a system that holds \<open>n\<close> entries in its live buffer
  and has nothing in flight: the push flushes all \<open>n + 1\<close> entries, and when the delivery
  has failed they are back in the live buffer if \<^verbatim>\<open>unshift\<close> takes that many arguments;
  otherwise they are gone and the promise is rejected.
\<close>

lemma outage_round:
  assumes "buffer (service sys) = replicate n entry_boot" and "flights sys = []"
    and "\<not> isShuttingDown (service sys)"
  shows "buffer (service (run (Some 1)
                   [PushLog entry_boot (Date 1), Settle 0 (Some (Error ''timeout'')) (Date 2) max_arguments] sys))
           = (if Suc n \<le> max_arguments then replicate (Suc n) entry_boot else [])"
    and "flights (run (Some 1)
                   [PushLog entry_boot (Date 1), Settle 0 (Some (Error ''timeout'')) (Date 2) max_arguments] sys) = []"
    and "rejections (run (Some 1)
                   [PushLog entry_boot (Date 1), Settle 0 (Some (Error ''timeout'')) (Date 2) max_arguments] sys)
           = rejections sys @ (if Suc n \<le> max_arguments then [] else [RangeError])"
    and "\<not> isShuttingDown (service (run (Some 1)
                   [PushLog entry_boot (Date 1), Settle 0 (Some (Error ''timeout'')) (Date 2) max_arguments] sys))"
    and "appended (Some 1)
           [PushLog entry_boot (Date 1), Settle 0 (Some (Error ''timeout'')) (Date 2) max_arguments] sys = [entry_boot]"
    and "delivered (Some 1)
           [PushLog entry_boot (Date 1), Settle 0 (Some (Error ''timeout'')) (Date 2) max_arguments] sys = []"
    and "discarded (Some 1)
           [PushLog entry_boot (Date 1), Settle 0 (Some (Error ''timeout'')) (Date 2) max_arguments] sys
           = (if Suc n \<le> max_arguments then [] else replicate (Suc n) entry_boot)"
proof -
  have valid: "\<not> invalid_entry entry_boot" and same: "with_timestamp (Date 1) entry_boot = entry_boot"
    by (simp_all add: invalid_entry_def entry_boot_def with_timestamp_def)
  let ?t = "push [entry_boot] (service sys)"
  have t: "buffer ?t = replicate (Suc n) entry_boot"
    by (simp add: buffer_push assms(1) replicate_append_same)
  then have "buffer ?t \<noteq> []" by simp
  from flushLogs_detach [OF this, of "Date 1"] obtain fl s' where
    fl: "flushLogs (Date 1) ?t = (Some fl, s')" "arrays s' (logsToSend fl) = buffer ?t" "buffer s' = []"
      "isShuttingDown s' = isShuttingDown ?t"
    by blast
  have push: "pushLog (Some 1) entry_boot (Date 1) (service sys) = (Some fl, s')"
    using assms(3) valid fl(1) t by (simp add: pushLog_def same reaches_def Let_def)
  have first: "step (Some 1) (PushLog entry_boot (Date 1)) sys
      = sys\<lparr> service := s', flights := [fl] \<rparr>"
    by (simp add: push started_def assms(2))
  obtain r s'' where settled:
    "flushLogs_settled max_arguments (Some (Error ''timeout'')) (Date 2) fl s' = (r, s'')"
    by (cases "flushLogs_settled max_arguments (Some (Error ''timeout'')) (Date 2) fl s'")
  from flushLogs_settled_failure [OF settled] fl t
  have ended: "r = (if Suc n \<le> max_arguments then None else Some RangeError)"
    "buffer s'' = (if Suc n \<le> max_arguments then replicate (Suc n) entry_boot else [])"
    by simp_all
  have up: "\<not> isShuttingDown s''"
    using flushLogs_settled_frame(3) [of max_arguments "Some (Error ''timeout'')" "Date 2" fl s']
      settled fl(4) assms(3)
    by (simp add: push_frame)
  have second: "step (Some 1) (Settle 0 (Some (Error ''timeout'')) (Date 2) max_arguments)
        (sys\<lparr> service := s', flights := [fl] \<rparr>)
      = rejected r s'' (sys\<lparr> service := s', flights := [] \<rparr>)"
    by (simp add: settled)
  have run: "run (Some 1)
        [PushLog entry_boot (Date 1), Settle 0 (Some (Error ''timeout'')) (Date 2) max_arguments] sys
      = rejected r s'' (sys\<lparr> service := s', flights := [] \<rparr>)"
    by (simp only: run.simps first second)
  show "buffer (service (run (Some 1)
                   [PushLog entry_boot (Date 1), Settle 0 (Some (Error ''timeout'')) (Date 2) max_arguments] sys))
           = (if Suc n \<le> max_arguments then replicate (Suc n) entry_boot else [])"
    and "flights (run (Some 1)
                   [PushLog entry_boot (Date 1), Settle 0 (Some (Error ''timeout'')) (Date 2) max_arguments] sys) = []"
    and "rejections (run (Some 1)
                   [PushLog entry_boot (Date 1), Settle 0 (Some (Error ''timeout'')) (Date 2) max_arguments] sys)
           = rejections sys @ (if Suc n \<le> max_arguments then [] else [RangeError])"
    and "\<not> isShuttingDown (service (run (Some 1)
                   [PushLog entry_boot (Date 1), Settle 0 (Some (Error ''timeout'')) (Date 2) max_arguments] sys))"
    unfolding run using ended up by (simp_all add: rejected_def)
  show "appended (Some 1)
           [PushLog entry_boot (Date 1), Settle 0 (Some (Error ''timeout'')) (Date 2) max_arguments] sys = [entry_boot]"
    using assms(3) valid by (simp add: same)
  show "delivered (Some 1)
           [PushLog entry_boot (Date 1), Settle 0 (Some (Error ''timeout'')) (Date 2) max_arguments] sys = []"
    by simp
  show "discarded (Some 1)
           [PushLog entry_boot (Date 1), Settle 0 (Some (Error ''timeout'')) (Date 2) max_arguments] sys
           = (if Suc n \<le> max_arguments then [] else replicate (Suc n) entry_boot)"
    using fl(2,3) t
    by (simp only: discarded.simps discarded_by.simps first) (simp add: batch_of_def)
qed

text \<open>
  During an outage the batch grows with every message: each failed batch is put back in
  front of a live buffer that is empty, and the next push flushes all of it again. When
  the batch has grown beyond what one call of \<^verbatim>\<open>unshift\<close> takes, all of it is lost.
\<close>

lemma outage_grows_batch:
  assumes "n \<le> max_arguments"
  shows "buffer (service (run (Some 1) (outage max_arguments n) new_system)) = replicate n entry_boot
       \<and> flights (run (Some 1) (outage max_arguments n) new_system) = []
       \<and> rejections (run (Some 1) (outage max_arguments n) new_system) = []
       \<and> \<not> isShuttingDown (service (run (Some 1) (outage max_arguments n) new_system))
       \<and> appended (Some 1) (outage max_arguments n) new_system = replicate n entry_boot
       \<and> delivered (Some 1) (outage max_arguments n) new_system = []
       \<and> discarded (Some 1) (outage max_arguments n) new_system = []"
  using assms
proof (induction n)
  case 0
  then show ?case
    by (simp add: outage_def new_system_def new_LokiService_def buffer_def)
next
  case (Suc n)
  let ?sys = "run (Some 1) (outage max_arguments n) new_system"
  from Suc have ih: "buffer (service ?sys) = replicate n entry_boot" "flights ?sys = []"
    "rejections ?sys = []" "\<not> isShuttingDown (service ?sys)"
    "appended (Some 1) (outage max_arguments n) new_system = replicate n entry_boot"
    "delivered (Some 1) (outage max_arguments n) new_system = []"
    "discarded (Some 1) (outage max_arguments n) new_system = []"
    by simp_all
  note round = outage_round [OF ih(1,2,4), of max_arguments]
  from round ih Suc.prems show ?case
    by (simp add: outage_Suc run_append appended_append delivered_append discarded_append
        replicate_append_same del: run.simps appended.simps delivered.simps discarded.simps)
qed

lemma outage_loses_everything:
  "buffer (service (run (Some 1) (outage max_arguments (Suc max_arguments)) new_system)) = []
   \<and> flights (run (Some 1) (outage max_arguments (Suc max_arguments)) new_system) = []
   \<and> rejections (run (Some 1) (outage max_arguments (Suc max_arguments)) new_system) = [RangeError]
   \<and> appended (Some 1) (outage max_arguments (Suc max_arguments)) new_system
       = replicate (Suc max_arguments) entry_boot
   \<and> delivered (Some 1) (outage max_arguments (Suc max_arguments)) new_system = []
   \<and> discarded (Some 1) (outage max_arguments (Suc max_arguments)) new_system
       = replicate (Suc max_arguments) entry_boot"
proof -
  let ?sys = "run (Some 1) (outage max_arguments max_arguments) new_system"
  from outage_grows_batch [of max_arguments max_arguments]
  have ih: "buffer (service ?sys) = replicate max_arguments entry_boot"
    "flights ?sys = []" "rejections ?sys = []" "\<not> isShuttingDown (service ?sys)"
    "appended (Some 1) (outage max_arguments max_arguments) new_system = replicate max_arguments entry_boot"
    "delivered (Some 1) (outage max_arguments max_arguments) new_system = []"
    "discarded (Some 1) (outage max_arguments max_arguments) new_system = []"
    by simp_all
  note round = outage_round [OF ih(1,2,4), of max_arguments]
  from round ih show ?thesis
    by (simp add: outage_Suc run_append appended_append delivered_append discarded_append
        replicate_append_same del: run.simps appended.simps delivered.simps discarded.simps)
qed

text \<open>
  C1. The failure handling does not do what is stated when the detached batch is large.
  Take a batch of \<open>max_arguments + 1\<close> entries, one more than a call takes as arguments,
  and a live buffer of one entry, which is fewer than 1000. As stated, when the delivery
  fails every entry of the batch is put back in front of the live buffer. In the code
  \<^verbatim>\<open>this.logBuffer.unshift(...logsToSend)\<close> throws a \<^verbatim>\<open>RangeError\<close> inside the
  \<^verbatim>\<open>catch\<close> clause: the promise of \<^verbatim>\<open>flushLogs\<close> is rejected, the live buffer still
  holds its one entry, so no entry of the batch is retained, and no warning is recorded,
  only the error of the failed delivery.

  Such a batch builds up from the constructor on, without any other caller than the MQTT
  subscriber: with a batch size of 1, when the sink is out for \<open>max_arguments + 1\<close>
  messages, every message is accepted, nothing is delivered, and at the last failure all
  the messages are discarded and the live buffer is empty.
\<close>

theorem failed_batch_lost_at_requeue:
  "length (buffer (service_with (replicate (Suc max_arguments) entry_boot) [entry_late])) = 1
   \<and> length (batch_of (service_with (replicate (Suc max_arguments) entry_boot) [entry_late]) flight1)
       = Suc max_arguments
   \<and> fst (flushLogs_settled max_arguments (Some (Error ''timeout'')) (Date 9) flight1
             (service_with (replicate (Suc max_arguments) entry_boot) [entry_late]))
       = Some RangeError
   \<and> buffer (snd (flushLogs_settled max_arguments (Some (Error ''timeout'')) (Date 9) flight1
                     (service_with (replicate (Suc max_arguments) entry_boot) [entry_late])))
       = [entry_late]
   \<and> logger (snd (flushLogs_settled max_arguments (Some (Error ''timeout'')) (Date 9) flight1
                     (service_with (replicate (Suc max_arguments) entry_boot) [entry_late])))
       = [Logger_error ''Failed to send logs to Loki: timeout'']
   \<and> appended (Some 1) (outage max_arguments (Suc max_arguments)) new_system
       = replicate (Suc max_arguments) entry_boot
   \<and> delivered (Some 1) (outage max_arguments (Suc max_arguments)) new_system = []
   \<and> discarded (Some 1) (outage max_arguments (Suc max_arguments)) new_system
       = replicate (Suc max_arguments) entry_boot
   \<and> buffer (service (run (Some 1) (outage max_arguments (Suc max_arguments)) new_system)) = []
   \<and> flights (run (Some 1) (outage max_arguments (Suc max_arguments)) new_system) = []
   \<and> rejections (run (Some 1) (outage max_arguments (Suc max_arguments)) new_system) = [RangeError]"
proof -
  have "length (buffer (service_with (replicate (Suc max_arguments) entry_boot) [entry_late])) = 1
   \<and> length (batch_of (service_with (replicate (Suc max_arguments) entry_boot) [entry_late]) flight1)
       = Suc max_arguments
   \<and> fst (flushLogs_settled max_arguments (Some (Error ''timeout'')) (Date 9) flight1
             (service_with (replicate (Suc max_arguments) entry_boot) [entry_late]))
       = Some RangeError
   \<and> buffer (snd (flushLogs_settled max_arguments (Some (Error ''timeout'')) (Date 9) flight1
                     (service_with (replicate (Suc max_arguments) entry_boot) [entry_late])))
       = [entry_late]
   \<and> logger (snd (flushLogs_settled max_arguments (Some (Error ''timeout'')) (Date 9) flight1
                     (service_with (replicate (Suc max_arguments) entry_boot) [entry_late])))
       = [Logger_error ''Failed to send logs to Loki: timeout'']"
    by (simp add: flushLogs_settled_def service_with_def flight1_def buffer_def batch_of_def
        new_LokiService_def log_call_def errorMessage_def spread_def Let_def)
  with outage_loses_everything [of max_arguments] show ?thesis
    by (simp only: simp_thms)
qed

section \<open>What the append operations keep\<close>

lemma stored_pushLog:
  "stored (pushLog batchSize entry now s) =
     buffer s @ (if isShuttingDown s \<or> invalid_entry entry then [] else [with_timestamp now entry])"
  using stored_call_effect [OF pushLog_effect [of s entry now batchSize]] by simp

lemma stored_pushLogs:
  "stored (flush_of (fst (pushLogs max_arguments batchSize entries now s)),
           snd (pushLogs max_arguments batchSize entries now s))
     = buffer s @ appended_by (PushLogs entries now max_arguments) s"
  using stored_call_effect [OF pushLogs_effect [of s entries now max_arguments batchSize]] by simp

lemma filter_valid_replicate:
  "\<not> invalid_entry e \<Longrightarrow> filter (\<lambda>entry. \<not> invalid_entry entry) (replicate n e) = replicate n e"
  by (induction n) simp_all

text \<open>
  C9, as stated, fails for \<open>pushLogs\<close>: a call that rejects its only entry does not leave
  the buffer as it was. After one message during an outage, with a batch size of 1, the
  buffer holds the entry that was put back; \<open>pushLogs\<close> with one entry that has an empty
  message appends nothing and then runs its size check, which starts a flush: the buffer is
  empty afterwards, and the entry it held is in the detached batch.
\<close>

theorem pushLogs_rejection_starts_flush_counterexample:
  "invalid_entry entry_blank
   \<and> buffer (service (run (Some 1) (outage 100000 1) new_system)) = [entry_boot]
   \<and> buffer (snd (pushLogs 100000 (Some 1) [entry_blank] (Date 3)
                     (service (run (Some 1) (outage 100000 1) new_system)))) = []
   \<and> stored (flush_of (fst (pushLogs 100000 (Some 1) [entry_blank] (Date 3)
                               (service (run (Some 1) (outage 100000 1) new_system)))),
              snd (pushLogs 100000 (Some 1) [entry_blank] (Date 3)
                     (service (run (Some 1) (outage 100000 1) new_system)))) = [entry_boot]"
proof -
  let ?s = "service (run (Some 1) (outage 100000 1) new_system)"
  from outage_grows_batch [of 1 100000] have s: "buffer ?s = [entry_boot]" "\<not> isShuttingDown ?s"
    by simp_all
  have blank: "invalid_entry entry_blank"
    by (simp add: invalid_entry_def entry_blank_def)
  let ?t = "push [] (warn_invalid ?s [entry_blank])"
  have t: "buffer ?t = [entry_boot]"
    using s by (simp add: buffer_push buffer_warn_invalid)
  then have "buffer ?t \<noteq> []" by simp
  from flushLogs_detach [OF this, of "Date 3"] obtain fl s' where
    fl: "flushLogs (Date 3) ?t = (Some fl, s')" "arrays s' (logsToSend fl) = buffer ?t" "buffer s' = []"
    by blast
  have "pushLogs 100000 (Some 1) [entry_blank] (Date 3) ?s = (Inr (Some fl), s')"
    using s(2) blank fl(1) t by (simp add: pushLogs_def spread_def reaches_def Let_def)
  with fl t blank s show ?thesis
    by (simp add: stored_def flush_of_def)
qed

text \<open>
  C9, amended. Both append operations keep the entries that the service holds populated.
  An entry whose message, device id or severity is empty or missing is rejected by
  \<open>pushLog\<close>, as is every entry when the service is shutting down: no flush starts and
  the buffer is as before. An accepted entry is stored behind the entries already held,
  with the time of the call as its timestamp when it has none. \<open>pushLogs\<close> returns at
  once when the service is shutting down, with the buffer as before. Otherwise it discards
  the entries of its argument that are empty or missing in one of the three fields and
  does one of three things. When more entries are left than one call of \<^verbatim>\<open>push\<close>
  takes, it throws a \<^verbatim>\<open>RangeError\<close> and the buffer is as before. When not, it appends
  the entries that are left, in order and with their timestamps defaulted, behind the
  entries already held, and runs its size check, also when every entry was rejected:
  either no flush starts and the buffer holds the old entries followed by the new ones, or
  a flush starts, the detached batch holds the old entries followed by the new ones, and
  the buffer is empty. So when every buffered entry has message, device id, severity and
  timestamp populated, the same is true of every entry held after either call, in the
  buffer or in the batch that the call detached.
\<close>

theorem invalid_entries_never_buffered:
  assumes "\<forall>e \<in> set (buffer s). populated e"
  shows "(invalid_entry entry \<or> isShuttingDown s \<longrightarrow>
            fst (pushLog batchSize entry now s) = None
            \<and> buffer (snd (pushLog batchSize entry now s)) = buffer s)
       \<and> (\<not> invalid_entry entry \<and> \<not> isShuttingDown s \<longrightarrow>
            stored (pushLog batchSize entry now s)
              = buffer s @ [entry\<lparr> timestamp := Some (case timestamp entry of None \<Rightarrow> now | Some t \<Rightarrow> t) \<rparr>])
       \<and> (case fst (pushLogs max_arguments batchSize entries now s) of
            Inl e \<Rightarrow>
              e = RangeError \<and> \<not> isShuttingDown s
              \<and> length (filter (\<lambda>e. \<not> invalid_entry e) entries) > max_arguments
              \<and> buffer (snd (pushLogs max_arguments batchSize entries now s)) = buffer s
          | Inr None \<Rightarrow>
              (isShuttingDown s \<or> length (filter (\<lambda>e. \<not> invalid_entry e) entries) \<le> max_arguments)
              \<and> buffer (snd (pushLogs max_arguments batchSize entries now s))
                  = buffer s @ (if isShuttingDown s then []
                                else map (\<lambda>e. e\<lparr> timestamp := Some (case timestamp e of None \<Rightarrow> now | Some t \<Rightarrow> t) \<rparr>)
                                       (filter (\<lambda>e. \<not> invalid_entry e) entries))
          | Inr (Some f) \<Rightarrow>
              \<not> isShuttingDown s
              \<and> length (filter (\<lambda>e. \<not> invalid_entry e) entries) \<le> max_arguments
              \<and> reaches (length (buffer s) + length (filter (\<lambda>e. \<not> invalid_entry e) entries)) batchSize
              \<and> arrays (snd (pushLogs max_arguments batchSize entries now s)) (logsToSend f)
                  = buffer s @ map (\<lambda>e. e\<lparr> timestamp := Some (case timestamp e of None \<Rightarrow> now | Some t \<Rightarrow> t) \<rparr>)
                                 (filter (\<lambda>e. \<not> invalid_entry e) entries)
              \<and> buffer (snd (pushLogs max_arguments batchSize entries now s)) = [])
       \<and> (\<not> isShuttingDown s \<and> length (filter (\<lambda>e. \<not> invalid_entry e) entries) > max_arguments \<longrightarrow>
            fst (pushLogs max_arguments batchSize entries now s) = Inl RangeError)
       \<and> (\<not> isShuttingDown s \<and> length (filter (\<lambda>e. \<not> invalid_entry e) entries) \<le> max_arguments
            \<and> reaches (length (buffer s) + length (filter (\<lambda>e. \<not> invalid_entry e) entries)) batchSize
            \<and> 0 < length (buffer s) + length (filter (\<lambda>e. \<not> invalid_entry e) entries) \<longrightarrow>
            (\<exists>f. fst (pushLogs max_arguments batchSize entries now s) = Inr (Some f)))
       \<and> (\<forall>e \<in> set (stored (pushLog batchSize entry now s)). populated e)
       \<and> (\<forall>e \<in> set (stored (flush_of (fst (pushLogs max_arguments batchSize entries now s)),
                               snd (pushLogs max_arguments batchSize entries now s))). populated e)"
proof -
  let ?valid = "filter (\<lambda>e. \<not> invalid_entry e) entries"
  let ?r = "pushLogs max_arguments batchSize entries now s"
  have rejected: "fst (pushLog batchSize entry now s) = None
      \<and> buffer (snd (pushLog batchSize entry now s)) = buffer s"
    if "invalid_entry entry \<or> isShuttingDown s"
    using that by (auto simp: pushLog_def log_call_def buffer_def)
  have throws: "fst ?r = Inl RangeError" if "\<not> isShuttingDown s \<and> length ?valid > max_arguments"
    using that by (simp add: pushLogs_def Let_def spread_def)
  have flushes: "\<exists>f. fst ?r = Inr (Some f)"
    if "\<not> isShuttingDown s \<and> length ?valid \<le> max_arguments
        \<and> reaches (length (buffer s) + length ?valid) batchSize \<and> 0 < length (buffer s) + length ?valid"
  proof -
    let ?t = "push (map (with_timestamp now) ?valid) (warn_invalid s entries)"
    have "buffer ?t \<noteq> []"
      using that by (auto simp: buffer_push buffer_warn_invalid)
    from flushLogs_detach [OF this, of now] obtain fl s' where "flushLogs now ?t = (Some fl, s')"
      by blast
    with that show ?thesis
      by (simp add: pushLogs_def Let_def spread_def buffer_push buffer_warn_invalid)
  qed
  have wt: "with_timestamp now = (\<lambda>e. e\<lparr> timestamp := Some (case timestamp e of None \<Rightarrow> now | Some t \<Rightarrow> t) \<rparr>)"
    by (rule ext) (simp add: with_timestamp_def)
  have one: "\<forall>e \<in> set (stored (pushLog batchSize entry now s)). populated e"
    using assms by (auto simp: stored_pushLog populated_with_timestamp)
  have many: "\<forall>e \<in> set (stored (flush_of (fst ?r), snd ?r)). populated e"
    using assms by (auto simp: stored_pushLogs populated_with_timestamp Let_def)
  note eff = pushLogs_effect [of s entries now max_arguments batchSize]
  have thrown: "e = RangeError \<and> \<not> isShuttingDown s \<and> length ?valid > max_arguments
      \<and> buffer (snd ?r) = buffer s" if "fst ?r = Inl e" for e
    using that
    by (auto simp: pushLogs_def Let_def spread_def buffer_warn_invalid split: if_splits)
  have quiet: "(isShuttingDown s \<or> length ?valid \<le> max_arguments)
      \<and> buffer (snd ?r) = buffer s @ (if isShuttingDown s then [] else map (with_timestamp now) ?valid)"
    if "fst ?r = Inr None"
  proof -
    have "isShuttingDown s \<or> length ?valid \<le> max_arguments"
      using that by (auto simp: pushLogs_def Let_def spread_def split: if_splits)
    with eff that show ?thesis
      by (auto simp: call_effect_def flush_of_def Let_def)
  qed
  have flush: "\<not> isShuttingDown s \<and> length ?valid \<le> max_arguments
      \<and> reaches (length (buffer s) + length ?valid) batchSize
      \<and> arrays (snd ?r) (logsToSend f) = buffer s @ map (with_timestamp now) ?valid
      \<and> buffer (snd ?r) = []" if "fst ?r = Inr (Some f)" for f
  proof -
    have "\<not> isShuttingDown s \<and> length ?valid \<le> max_arguments
        \<and> reaches (length (buffer s) + length ?valid) batchSize"
      using that
      by (auto simp: pushLogs_def Let_def spread_def buffer_push buffer_warn_invalid split: if_splits)
    with eff that show ?thesis
      by (auto simp: call_effect_def flush_of_def Let_def)
  qed
  have main: "case fst ?r of
          Inl e \<Rightarrow> e = RangeError \<and> \<not> isShuttingDown s \<and> length ?valid > max_arguments
                   \<and> buffer (snd ?r) = buffer s
        | Inr None \<Rightarrow> (isShuttingDown s \<or> length ?valid \<le> max_arguments)
            \<and> buffer (snd ?r) = buffer s @ (if isShuttingDown s then [] else map (with_timestamp now) ?valid)
        | Inr (Some f) \<Rightarrow> \<not> isShuttingDown s \<and> length ?valid \<le> max_arguments
            \<and> reaches (length (buffer s) + length ?valid) batchSize
            \<and> arrays (snd ?r) (logsToSend f) = buffer s @ map (with_timestamp now) ?valid
            \<and> buffer (snd ?r) = []"
    using thrown quiet flush by (auto split: sum.split option.split)
  have accepted: "stored (pushLog batchSize entry now s)
      = buffer s @ [entry\<lparr> timestamp := Some (case timestamp entry of None \<Rightarrow> now | Some t \<Rightarrow> t) \<rparr>]"
    if "\<not> invalid_entry entry \<and> \<not> isShuttingDown s"
    using that by (simp add: stored_pushLog with_timestamp_def)
  from main rejected accepted throws flushes one many show ?thesis
    unfolding wt by blast
qed

theorem invalid_entries_never_buffered_witness:
  "list_all populated (buffer (service_with [] [entry_boot]))
   \<and> invalid_entry entry_blank
   \<and> fst (pushLog (Some 10) entry_blank (Date 7) (service_with [] [entry_boot])) = None
   \<and> buffer (snd (pushLog (Some 10) entry_blank (Date 7) (service_with [] [entry_boot])))
       = [entry_boot]
   \<and> fst (pushLogs 100000 (Some 10) [entry_blank, entry_late] (Date 7) (service_with [] [entry_boot]))
       = Inr None
   \<and> buffer (snd (pushLogs 100000 (Some 10) [entry_blank, entry_late] (Date 7)
                     (service_with [] [entry_boot])))
       = [entry_boot, entry_late\<lparr> timestamp := Some (Date 7) \<rparr>]
   \<and> fst (pushLogs 100000 (Some 10) (replicate 100001 entry_late) (Date 7)
             (service_with [] [entry_boot]))
       = Inl RangeError
   \<and> buffer (snd (pushLogs 100000 (Some 10) (replicate 100001 entry_late) (Date 7)
                     (service_with [] [entry_boot])))
       = [entry_boot]
   \<and> list_all populated
        (stored (flush_of (fst (pushLogs 100000 (Some 10) [entry_blank, entry_late] (Date 7)
                                  (service_with [] [entry_boot]))),
                 snd (pushLogs 100000 (Some 10) [entry_blank, entry_late] (Date 7)
                        (service_with [] [entry_boot]))))"
proof -
  let ?s = "service_with [] [entry_boot]"
  have buf: "buffer ?s = [entry_boot]"
    by (simp add: service_with_def buffer_def new_LokiService_def)
  have h: "\<forall>e \<in> set (buffer ?s). populated e"
    unfolding buf by (simp add: populated_def entry_boot_def)
  have up: "\<not> isShuttingDown ?s"
    by (simp add: service_with_def new_LokiService_def)
  have blank: "invalid_entry entry_blank" and late: "\<not> invalid_entry entry_late"
    by (simp_all add: invalid_entry_def entry_blank_def entry_late_def)
  have ts: "timestamp entry_late = None"
    by (simp add: entry_late_def)
  have quiet: "fst (pushLogs 100000 (Some 10) [entry_blank, entry_late] (Date 7) ?s) = Inr None"
    using up blank late
    by (simp add: pushLogs_def Let_def spread_def reaches_def buffer_push buffer_warn_invalid buf)
  have thrown: "fst (pushLogs 100000 (Some 10) (replicate 100001 entry_late) (Date 7) ?s) = Inl RangeError"
    using up late
    by (simp add: pushLogs_def Let_def spread_def filter_valid_replicate)
  show ?thesis
    using h up blank late
      invalid_entries_never_buffered [OF h, of entry_blank "Some 10" "Date 7" 100000
        "[entry_blank, entry_late]"]
      invalid_entries_never_buffered [OF h, of entry_blank "Some 10" "Date 7" 100000
        "replicate 100001 entry_late"]
    by (simp add: quiet thrown buf ts list_all_iff filter_valid_replicate)
qed

section \<open>Appending while deliveries are in flight\<close>

text \<open>
  C2, as stated, fails: an entry appended while a delivery is in flight can be lost while
  that delivery is still in flight. With a batch size of 10 and a first delivery in
  flight, an entry is pushed and a tick starts a second delivery with it; a thousand
  entries are pushed, which starts a third delivery; the third delivery fails and its
  batch is put back, so the live buffer holds 1000 entries; then the second delivery fails
  and its batch is dropped. The first delivery is still the only one in flight, its batch
  is what it was, the pushed entry is not in the live buffer, nothing was delivered, and
  the entry was discarded.
\<close>

theorem appended_entry_discarded_counterexample:
  "map (batch_of (service (run (Some 10) events_before new_system)))
       (flights (run (Some 10) events_before new_system)) = [[entry_boot]]
   \<and> appended (Some 10) events_during (run (Some 10) events_before new_system)
       = entry_ready # replicate 1000 (entry_late\<lparr> timestamp := Some (Date 5) \<rparr>)
   \<and> map (batch_of (service (run (Some 10) (events_before @ events_during) new_system)))
       (flights (run (Some 10) (events_before @ events_during) new_system)) = [[entry_boot]]
   \<and> buffer (service (run (Some 10) (events_before @ events_during) new_system))
       = replicate 1000 (entry_late\<lparr> timestamp := Some (Date 5) \<rparr>)
   \<and> delivered (Some 10) (events_before @ events_during) new_system = []
   \<and> discarded (Some 10) (events_before @ events_during) new_system = [entry_ready]"
proof -
  have valid: "\<not> invalid_entry entry_boot" "\<not> invalid_entry entry_ready" "\<not> invalid_entry entry_late"
    by (simp_all add: invalid_entry_def entry_boot_def entry_ready_def entry_late_def)
  have stamped: "with_timestamp (Date 1) entry_boot = entry_boot"
    "with_timestamp (Date 3) entry_ready = entry_ready"
    "with_timestamp (Date 5) entry_late = entry_late\<lparr> timestamp := Some (Date 5) \<rparr>"
    by (simp_all add: with_timestamp_def entry_boot_def entry_ready_def entry_late_def)
  have quiet: "warn_invalid s (replicate n entry_late) = s" for s n
    unfolding warn_invalid_def using valid(3) by (induction n) simp_all
  show ?thesis
    by (simp add: events_before_def events_during_def new_system_def new_LokiService_def
        started_def rejected_def pushLog_def pushLogs_def timer_tick_def flushLogs_def
        flushLogs_settled_def spread_def unshift_def push_def buffer_def batch_of_def log_call_def
        reaches_def valid stamped quiet Let_def filter_valid_replicate)
qed

text \<open>
  C2, amended. A flush of a non-empty buffer detaches the whole contents as the batch and
  leaves an empty live buffer before the delivery is attempted. Whatever events follow
  (appends, timer ticks, forced flushes, the shutdown, and the settling of any delivery in
  flight, this one included, in any order), the batch stays what it was, so no entry
  appended while the delivery is in flight is part of it; the system stays consistent, so
  all this holds again for the next flush, which detaches the whole live buffer. No entry
  is duplicated, and an entry is lost only with a batch that is discarded at a failed
  delivery: at every moment the entries in the batches in flight and in the live buffer,
  together with the entries of the batches delivered and of the batches discarded since
  the flush, are the entries held at the flush together with the entries appended since,
  each as many times.
\<close>

theorem flush_detaches_before_delivery:
  assumes "consistent sys" and "buffer (service sys) \<noteq> []"
  shows "\<exists>fl s1. flushLogs now (service sys) = (Some fl, s1)
           \<and> batch_of s1 fl = buffer (service sys) \<and> buffer s1 = []
           \<and> (\<forall>events.
                 batch_of (service (run batchSize events (started (Some fl) s1 sys))) fl
                   = buffer (service sys)
               \<and> consistent (run batchSize events (started (Some fl) s1 sys))
               \<and> stored (flushLogs now' (service (run batchSize events (started (Some fl) s1 sys))))
                   = buffer (service (run batchSize events (started (Some fl) s1 sys)))
               \<and> mset (held (run batchSize events (started (Some fl) s1 sys)))
                   + mset (delivered batchSize events (started (Some fl) s1 sys))
                   + mset (discarded batchSize events (started (Some fl) s1 sys))
                 = mset (held sys)
                   + mset (appended batchSize events (started (Some fl) s1 sys)))"
proof -
  from flushLogs_detach [OF assms(2), of now] obtain fl s1 where
    start: "flushLogs now (service sys) = (Some fl, s1)" "arrays s1 (logsToSend fl) = buffer (service sys)"
      "buffer s1 = []" "logsToSend fl = next_ref (service sys)"
      "logBuffer s1 = Suc (next_ref (service sys))" "next_ref s1 = next_ref (service sys) + 2"
    by blast
  let ?sys1 = "started (Some fl) s1 sys"
  have eff: "call_effect (service sys) [] (Some fl) s1"
    using flushLogs_effect [of "service sys" now] start(1) by simp
  note st = started_effect [OF assms(1) eff]
  have ref: "logsToSend fl < next_ref (service ?sys1)" "logsToSend fl \<noteq> logBuffer (service ?sys1)"
    using start by simp_all
  have during: "batch_of (service (run batchSize events ?sys1)) fl = buffer (service sys)
      \<and> consistent (run batchSize events ?sys1)
      \<and> stored (flushLogs now' (service (run batchSize events ?sys1)))
          = buffer (service (run batchSize events ?sys1))
      \<and> mset (held (run batchSize events ?sys1))
          + mset (delivered batchSize events ?sys1)
          + mset (discarded batchSize events ?sys1)
        = mset (held sys) + mset (appended batchSize events ?sys1)" for events
  proof -
    note inv = run_effect [OF st(1), of batchSize events]
    from inv ref have "arrays (service (run batchSize events ?sys1)) (logsToSend fl)
        = arrays (service ?sys1) (logsToSend fl)"
      by blast
    then have "batch_of (service (run batchSize events ?sys1)) fl = buffer (service sys)"
      using start(2) by (simp add: batch_of_def)
    with inv st(5) show ?thesis
      by (simp add: stored_flushLogs)
  qed
  from start(1,2,3) during show ?thesis
    by (auto simp: batch_of_def)
qed

theorem flush_detaches_before_delivery_witness:
  "consistent system_boot
   \<and> buffer (service system_boot) = [entry_boot]
   \<and> (\<exists>fl s1. flushLogs (Date 2) (service system_boot) = (Some fl, s1)
         \<and> batch_of s1 fl = [entry_boot] \<and> buffer s1 = []
         \<and> batch_of (service (run (Some 10) events_during (started (Some fl) s1 system_boot))) fl
             = [entry_boot]
         \<and> consistent (run (Some 10) events_during (started (Some fl) s1 system_boot))
         \<and> mset (held (run (Some 10) events_during (started (Some fl) s1 system_boot)))
             + mset (delivered (Some 10) events_during (started (Some fl) s1 system_boot))
             + mset (discarded (Some 10) events_during (started (Some fl) s1 system_boot))
           = mset [entry_boot]
             + mset (appended (Some 10) events_during (started (Some fl) s1 system_boot)))"
proof -
  have valid: "\<not> invalid_entry entry_boot"
    by (simp add: invalid_entry_def entry_boot_def)
  have stamped: "with_timestamp (Date 1) entry_boot = entry_boot"
    by (simp add: with_timestamp_def entry_boot_def)
  have new: "buffer new_LokiService = []" "\<not> isShuttingDown new_LokiService"
    by (simp_all add: buffer_def new_LokiService_def)
  have boot: "service system_boot = push [entry_boot] new_LokiService" "flights system_boot = []"
    by (simp_all add: system_boot_def new_system_def started_def pushLog_def valid stamped Let_def
        reaches_def buffer_push new)
  have buf: "buffer (service system_boot) = [entry_boot]"
    by (simp add: boot buffer_push new)
  have h1: "consistent system_boot"
    by (simp add: consistent_def boot push_frame new_LokiService_def)
  have h2: "buffer (service system_boot) \<noteq> []"
    by (simp add: buf)
  have held: "held system_boot = [entry_boot]"
    by (simp add: held_def boot(2) buf)
  from flush_detaches_before_delivery [OF h1 h2, where now = "Date 2"
      and batchSize = "Some 10"]
  obtain fl s1 where
    start: "flushLogs (Date 2) (service system_boot) = (Some fl, s1)"
      "batch_of s1 fl = buffer (service system_boot)" "buffer s1 = []"
    and during: "\<And>events.
        batch_of (service (run (Some 10) events (started (Some fl) s1 system_boot))) fl
          = buffer (service system_boot)
        \<and> consistent (run (Some 10) events (started (Some fl) s1 system_boot))
        \<and> mset (held (run (Some 10) events (started (Some fl) s1 system_boot)))
            + mset (delivered (Some 10) events (started (Some fl) s1 system_boot))
            + mset (discarded (Some 10) events (started (Some fl) s1 system_boot))
          = mset (held system_boot)
            + mset (appended (Some 10) events (started (Some fl) s1 system_boot))"
    by blast
  from during [of events_during] start h1 show ?thesis
    unfolding buf held by blast
qed

section \<open>The timestamp text\<close>

lemma bit_length_bounds: "n > 0 \<Longrightarrow> 2 ^ (bit_length n - 1) \<le> n \<and> n < 2 ^ bit_length n"
proof (induction n rule: bit_length.induct)
  case (1 n)
  show ?case
  proof (cases "n div 2 = 0")
    case True
    with 1 have "n = 1" by (simp add: div_eq_0_iff)
    then show ?thesis by (simp add: bit_length.simps)
  next
    case False
    with 1 have ih: "2 ^ (bit_length (n div 2) - 1) \<le> n div 2" "n div 2 < 2 ^ bit_length (n div 2)"
      by simp_all
    have pos: "bit_length (n div 2) > 0"
      using False by (simp add: bit_length.simps)
    have bl: "bit_length n = Suc (bit_length (n div 2))"
      using 1 by (simp add: bit_length.simps)
    have "2 ^ (bit_length n - 1) = 2 * 2 ^ (bit_length (n div 2) - 1)"
      using pos bl by (cases "bit_length (n div 2)") simp_all
    also have "\<dots> \<le> 2 * (n div 2)" using ih by simp
    also have "\<dots> \<le> n" by simp
    finally have lo: "2 ^ (bit_length n - 1) \<le> n" .
    have "n < 2 * (n div 2) + 2" by arith
    also have "\<dots> \<le> 2 * 2 ^ bit_length (n div 2)" using ih by simp
    finally have hi: "n < 2 ^ bit_length n" using bl by simp
    from lo hi show ?thesis by simp
  qed
qed

text \<open>Rounding moves an integer by at most half a unit in the last place.\<close>

lemma round_to_double_error:
  "2 ^ 53 * round_to_double a \<le> 2 ^ 53 * a + a \<and> 2 ^ 53 * a \<le> 2 ^ 53 * round_to_double a + a"
proof (cases "bit_length a \<le> 53")
  case True
  then show ?thesis by (simp add: round_to_double_def)
next
  case False
  define e where "e = bit_length a - 53"
  define q where "q = a div 2 ^ e"
  define r where "r = a mod 2 ^ e"
  define h :: nat where "h = 2 ^ (e - 1)"
  have e: "e \<ge> 1" "bit_length a = e + 53" using False by (simp_all add: e_def)
  have a: "a = q * 2 ^ e + r"
    using div_mult_mod_eq [of a "2 ^ e"] by (simp add: q_def r_def)
  have r: "r < 2 ^ e" by (simp add: r_def)
  have two_h: "2 * h = 2 ^ e" using e by (cases e) (simp_all add: h_def)
  have "a > 0" using False by (cases "a = 0") (simp_all add: bit_length.simps)
  from bit_length_bounds [OF this] e have "(2::nat) ^ (e + 52) \<le> a" by (simp add: add.commute)
  moreover have "(2::nat) ^ (e + 52) = 2 ^ 53 * h"
    using two_h [symmetric] by (simp add: power_add)
  ultimately have big: "2 ^ 53 * h \<le> a" by simp
  have rd: "round_to_double a = (if r > h \<or> (r = h \<and> odd q) then q + 1 else q) * 2 ^ e"
    using False by (simp add: round_to_double_def Let_def e_def q_def r_def h_def)
  show ?thesis
  proof (cases "r > h \<or> (r = h \<and> odd q)")
    case True
    define d where "d = 2 ^ e - r"
    have "round_to_double a = q * 2 ^ e + 2 ^ e" using rd True by (simp add: algebra_simps)
    then have up: "round_to_double a = a + d" using a r by (simp add: d_def)
    have "d \<le> h" using True two_h r by (auto simp: d_def)
    then have "2 ^ 53 * d \<le> 2 ^ 53 * h" by (rule mult_le_mono2)
    with big have "2 ^ 53 * d \<le> a" by linarith
    then show ?thesis unfolding up by (simp add: distrib_left)
  next
    case False
    then have "round_to_double a = q * 2 ^ e" using rd by simp
    then have down: "a = round_to_double a + r" using a by simp
    have "r \<le> h" using False by auto
    then have "2 ^ 53 * r \<le> 2 ^ 53 * h" by (rule mult_le_mono2)
    with big have small: "2 ^ 53 * r \<le> a" by linarith
    have "2 ^ 53 * a = 2 ^ 53 * round_to_double a + 2 ^ 53 * r"
      using down by (metis distrib_left)
    with small down show ?thesis by simp
  qed
qed

text \<open>Two integers that are far apart for their size round to different doubles.\<close>

lemma round_to_double_separates:
  assumes "v < w" and "w < 2 ^ 52 * (w - v)"
  shows "round_to_double v < round_to_double w"
proof -
  from round_to_double_error [of v] have v: "2 ^ 53 * round_to_double v \<le> 2 ^ 53 * v + v" by simp
  from round_to_double_error [of w] have w: "2 ^ 53 * w \<le> 2 ^ 53 * round_to_double w + w" by simp
  define g where "g = w - v"
  have wv: "w = v + g" using assms(1) by (simp add: g_def)
  have "2 * w < 2 ^ 53 * g" using assms(2) by (simp add: g_def)
  then have "v + w < 2 ^ 53 * g" using assms(1) by simp
  moreover have "2 ^ 53 * w = 2 ^ 53 * v + 2 ^ 53 * g" unfolding wv by (simp add: distrib_left)
  ultimately have "2 ^ 53 * round_to_double v < 2 ^ 53 * round_to_double w"
    using v w by linarith
  then show ?thesis by simp
qed

text \<open>Two different integers of at most 15 significant digits are that far apart.\<close>

lemma gap_15_digits:
  fixes v w s t :: nat
  assumes "v = s * 10 ^ a" "w = t * 10 ^ b" "s < 10 ^ 15" "t < 10 ^ 15" "v < w"
  shows "w < 2 ^ 52 * (w - v)"
proof (cases "a \<le> b")
  case True
  then obtain c where b: "b = a + c" by (auto simp: le_iff_add)
  define u where "u = t * 10 ^ c"
  have w: "w = u * 10 ^ a" by (simp add: assms(2) b u_def power_add)
  have su: "s < u" using assms(1,5) w by simp
  then have gap: "w - v = (u - s) * 10 ^ a"
    by (simp add: assms(1) w diff_mult_distrib)
  have "u < 2 ^ 52 * (u - s)"
  proof (cases "u < 2 * 10 ^ 15")
    case True
    have "u - s \<ge> 1" using su by simp
    then have "(2::nat) ^ 52 * 1 \<le> 2 ^ 52 * (u - s)" by (rule mult_le_mono2)
    with True show ?thesis by simp
  next
    case False
    with assms(3) have "u < 2 * (u - s)" by simp
    also have "\<dots> \<le> 2 ^ 52 * (u - s)" by simp
    finally show ?thesis .
  qed
  then have "u * 10 ^ a < (2 ^ 52 * (u - s)) * 10 ^ a" by simp
  then have "w < 2 ^ 52 * ((u - s) * 10 ^ a)" by (simp add: w mult.assoc)
  then show ?thesis by (simp only: gap)
next
  case False
  then have "b \<le> a" by simp
  then obtain c where a: "a = b + c" by (auto simp: le_iff_add)
  define u where "u = s * 10 ^ c"
  have v: "v = u * 10 ^ b" by (simp add: assms(1) a u_def power_add)
  have ut: "u < t" using assms(2,5) v by simp
  then have gap: "w - v = (t - u) * 10 ^ b"
    by (simp add: assms(2) v diff_mult_distrib)
  have "t - u \<ge> 1" using ut by simp
  then have "(2::nat) ^ 52 * 1 \<le> 2 ^ 52 * (t - u)" by (rule mult_le_mono2)
  with assms(4) have "t < 2 ^ 52 * (t - u)" by simp
  then have "t * 10 ^ b < (2 ^ 52 * (t - u)) * 10 ^ b" by simp
  then have "w < 2 ^ 52 * ((t - u) * 10 ^ b)" by (simp add: assms(2) mult.assoc)
  then show ?thesis by (simp only: gap)
qed

lemma round_to_double_inj_15_digits:
  fixes v w s t :: nat
  assumes "v = s * 10 ^ a" "w = t * 10 ^ b" "s < 10 ^ 15" "t < 10 ^ 15"
    and "round_to_double v = round_to_double w"
  shows "v = w"
proof (rule ccontr)
  assume "v \<noteq> w"
  then consider "v < w" | "w < v" by arith
  then show False
  proof cases
    case 1
    from round_to_double_separates [OF 1 gap_15_digits [OF assms(1-4) 1]] assms(5)
    show False by simp
  next
    case 2
    from round_to_double_separates [OF 2 gap_15_digits [OF assms(2,1,4,3) 2]] assms(5)
    show False by simp
  qed
qed

lemma string_of_nat_bound: "n < 10 ^ length (string_of_nat n)"
proof (induction n rule: string_of_nat.induct)
  case (1 n)
  show ?case
  proof (cases "n < 10")
    case True
    then show ?thesis by (simp add: string_of_nat.simps)
  next
    case False
    with 1 have "n div 10 < 10 ^ length (string_of_nat (n div 10))" by simp
    then have "n < 10 * 10 ^ length (string_of_nat (n div 10))" by arith
    with False show ?thesis by (simp add: string_of_nat.simps [of n])
  qed
qed

lemma string_of_nat_lower: "n > 0 \<Longrightarrow> 10 ^ (length (string_of_nat n) - 1) \<le> n"
proof (induction n rule: string_of_nat.induct)
  case (1 n)
  show ?case
  proof (cases "n < 10")
    case True
    with 1 show ?thesis by (simp add: string_of_nat.simps)
  next
    case False
    then have pos: "n div 10 > 0" by simp
    with 1 False have ih: "10 ^ (length (string_of_nat (n div 10)) - 1) \<le> n div 10" by simp
    have len: "length (string_of_nat n) - 1 = length (string_of_nat (n div 10))"
      using False by (simp add: string_of_nat.simps [of n])
    have "length (string_of_nat (n div 10)) > 0"
      by (simp add: string_of_nat.simps [of "n div 10"])
    then have "(10::nat) ^ length (string_of_nat (n div 10))
                = 10 * 10 ^ (length (string_of_nat (n div 10)) - 1)"
      by (cases "length (string_of_nat (n div 10))") simp_all
    also have "\<dots> \<le> 10 * (n div 10)" using ih by simp
    also have "\<dots> \<le> n" by simp
    finally show ?thesis by (simp only: len)
  qed
qed

lemma string_of_nat_length_le:
  assumes "m < 10 ^ p" and "p \<ge> 1"
  shows "length (string_of_nat m) \<le> p"
proof (cases "m = 0")
  case True
  with assms show ?thesis by (simp add: string_of_nat.simps)
next
  case False
  then have "m > 0" by simp
  then have "10 ^ (length (string_of_nat m) - 1) \<le> m" by (rule string_of_nat_lower)
  from this assms(1) have "(10::nat) ^ (length (string_of_nat m) - 1) < 10 ^ p" by (rule le_less_trans)
  then have "length (string_of_nat m) - 1 < p" by simp
  then show ?thesis by arith
qed

lemma string_of_nat_length_gt:
  assumes "10 ^ p \<le> m"
  shows "p < length (string_of_nat m)"
proof -
  from assms string_of_nat_bound [of m] have "(10::nat) ^ p < 10 ^ length (string_of_nat m)"
    by (rule le_less_trans)
  then show ?thesis by simp
qed

lemma string_of_nat_times_10: "s > 0 \<Longrightarrow> string_of_nat (s * 10) = string_of_nat s @ ''0''"
  by (simp add: string_of_nat.simps [of "s * 10"] digit_char_def)

lemma string_of_nat_zeros:
  "s > 0 \<Longrightarrow> string_of_nat (s * 10 ^ j) = string_of_nat s @ replicate j CHR ''0''"
proof (induction j)
  case 0
  then show ?case by simp
next
  case (Suc j)
  then have "s * 10 ^ j > 0" by simp
  then have "string_of_nat ((s * 10 ^ j) * 10) = string_of_nat (s * 10 ^ j) @ ''0''"
    by (rule string_of_nat_times_10)
  moreover have "s * 10 ^ Suc j = (s * 10 ^ j) * 10" by simp
  ultimately have "string_of_nat (s * 10 ^ Suc j) = string_of_nat (s * 10 ^ j) @ ''0''"
    by (simp only:)
  with Suc show ?case
    by (simp add: replicate_append_same)
qed

lemma best_in: "best x c cs \<in> set (c # cs)"
  by (induction cs arbitrary: c) auto

lemma best_shortest:
  "c' \<in> set (c # cs) \<Longrightarrow>
     length (string_of_nat (fst (best x c cs))) \<le> length (string_of_nat (fst c'))"
proof (induction cs arbitrary: c c')
  case Nil
  then show ?case by simp
next
  case (Cons d ds)
  let ?c = "if better x d c then d else c"
  have keep: "length (string_of_nat (fst ?c)) \<le> length (string_of_nat (fst c))"
    "length (string_of_nat (fst ?c)) \<le> length (string_of_nat (fst d))"
    by (auto simp: better_def Let_def)
  have top: "length (string_of_nat (fst (best x ?c ds))) \<le> length (string_of_nat (fst ?c))"
    using Cons.IH [of ?c ?c] by simp
  from Cons.prems consider "c' = c" | "c' = d" | "c' \<in> set ds" by auto
  then show ?case
  proof cases
    case 1
    with keep(1) top show ?thesis by simp
  next
    case 2
    with keep(2) top show ?thesis by simp
  next
    case 3
    with Cons.IH [of c' ?c] show ?thesis by simp
  qed
qed

lemma candidates_sound:
  assumes "c \<in> set (candidates x)"
  shows "fst c > 0 \<and> round_to_double (fst c * 10 ^ snd c) = x"
proof -
  from assms have
    "\<exists>j. c \<in> set (filter (\<lambda>c. fst c > 0 \<and> round_to_double (fst c * 10 ^ snd c) = x)
                [(x div 10 ^ j, j), (x div 10 ^ j + 1, j)])"
    unfolding candidates_def by (simp only: set_concat set_map) blast
  then show ?thesis by (auto simp only: set_filter mem_Collect_eq)
qed

lemma candidates_complete:
  assumes "s > 0" "round_to_double (s * 10 ^ j) = x" "j \<le> length (string_of_nat x)"
    and "s = x div 10 ^ j \<or> s = x div 10 ^ j + 1"
  shows "(s, j) \<in> set (candidates x)"
proof -
  have ok: "fst (s, j) > 0 \<and> round_to_double (fst (s, j) * 10 ^ snd (s, j)) = x"
    using assms(1,2) by simp
  have mem: "(s, j) \<in> set [(x div 10 ^ j, j), (x div 10 ^ j + 1, j)]"
    using assms(4) by auto
  have "(s, j) \<in> set (filter (\<lambda>c. fst c > 0 \<and> round_to_double (fst c * 10 ^ snd c) = x)
                [(x div 10 ^ j, j), (x div 10 ^ j + 1, j)])"
    unfolding set_filter using ok mem by blast
  moreover have "j \<in> set [0 ..< length (string_of_nat x) + 1]"
    using assms(3) by auto
  ultimately show ?thesis
    unfolding candidates_def set_concat set_map by blast
qed

lemma Number_toString_exact:
  assumes "1 \<le> a" and "a < 10 ^ 15"
  shows "Number_toString (round_to_double (a * 1000000)) = string_of_nat (a * 1000000)"
proof -
  define v where "v = a * 1000000"
  define x where "x = round_to_double v"
  have v6: "v = a * 10 ^ 6" by (simp add: v_def)
  have v_lo: "1000000 \<le> v" and v_hi: "v < 10 ^ 21"
    using assms by (simp_all add: v_def)
  from round_to_double_error [of v]
  have err: "2 ^ 53 * x \<le> 2 ^ 53 * v + v" "2 ^ 53 * v \<le> 2 ^ 53 * x + v"
    by (simp_all add: x_def)
  have near: "x < v + 1000000" "v < x + 1000000"
    using err v_hi by simp_all
  have x_lo: "10 ^ 5 \<le> x"
    using err v_lo by simp
  then have "x \<noteq> 0" by simp
  have len_x: "6 \<le> length (string_of_nat x)"
    using string_of_nat_length_gt [OF x_lo] by simp
  define q where "q = x div 10 ^ 6"
  define r where "r = x mod 10 ^ 6"
  have x_qr: "x = q * 1000000 + r" and r: "r < 1000000"
    using div_mult_mod_eq [of x "10 ^ 6"] by (simp_all add: q_def r_def)
  have aq: "a = q \<or> a = q + 1"
    using near x_qr r by (simp add: v_def) arith
  have a_in: "(a, 6) \<in> set (candidates x)"
  proof (rule candidates_complete)
    show "0 < a" using assms(1) by simp
    show "round_to_double (a * 10 ^ 6) = x" by (simp only: x_def v6)
    show "6 \<le> length (string_of_nat x)" by (rule len_x)
    show "a = x div 10 ^ 6 \<or> a = x div 10 ^ 6 + 1" using aq by (simp only: q_def)
  qed
  define c where "c = shortest x"
  obtain d ds where cands: "candidates x = d # ds"
    using a_in by (cases "candidates x") auto
  then have c_best: "c = best x d ds" by (simp add: c_def shortest_def)
  then have c_in: "c \<in> set (candidates x)"
    using best_in [of x d ds] cands by simp
  have "(a, 6::nat) \<in> set (d # ds)"
    using a_in cands by simp
  then have "length (string_of_nat (fst c)) \<le> length (string_of_nat (fst (a, 6::nat)))"
    unfolding c_best by (rule best_shortest)
  also have "\<dots> \<le> 15"
    using assms(2) by (simp add: string_of_nat_length_le)
  finally have k15: "length (string_of_nat (fst c)) \<le> 15" .
  have "fst c < 10 ^ length (string_of_nat (fst c))" by (rule string_of_nat_bound)
  also have "\<dots> \<le> 10 ^ 15" using k15 by (intro power_increasing) simp_all
  finally have s15: "fst c < 10 ^ 15" .
  from candidates_sound [OF c_in]
  have c_pos: "fst c > 0" and c_rd: "round_to_double (fst c * 10 ^ snd c) = round_to_double v"
    by (simp_all add: x_def)
  have same: "fst c * 10 ^ snd c = v"
    using round_to_double_inj_15_digits [OF refl v6 s15 assms(2) c_rd] .
  have digits: "string_of_nat v = string_of_nat (fst c) @ replicate (snd c) CHR ''0''"
    using string_of_nat_zeros [OF c_pos, of "snd c"] same by simp
  have "length (string_of_nat v) \<le> 21"
    using v_hi by (simp add: string_of_nat_length_le)
  then have n21: "length (string_of_nat (fst c)) + snd c \<le> 21"
    by (simp add: digits)
  have "Number_toString x = string_of_nat (fst c) @ replicate (snd c) CHR ''0''"
    using \<open>x \<noteq> 0\<close> n21 by (simp add: Number_toString_def Let_def c_def [symmetric])
  then have "Number_toString x = string_of_nat v"
    by (simp only: digits)
  then show ?thesis
    by (simp only: x_def v_def)
qed

lemma nanoseconds_exact:
  assumes "\<bar>ms\<bar> < 10 ^ 15"
  shows "nanoseconds (Date ms) = string_of_int (ms * 1000000)"
proof (cases "ms = 0")
  case True
  then show ?thesis
    by (simp add: nanoseconds_def string_of_int_def round_to_double_def bit_length.simps [of 0]
        Number_toString_def string_of_nat.simps [of 0] digit_char_def)
next
  case False
  define a where "a = nat \<bar>ms\<bar>"
  have a: "1 \<le> a" "a < 10 ^ 15"
    using False assms by (simp_all add: a_def nat_less_iff)
  have "nat \<bar>ms * 1000000\<bar> = a * 1000000"
    by (simp add: a_def abs_mult nat_mult_distrib)
  moreover have "(ms * 1000000 < 0) = (ms < 0)"
    by (simp add: mult_less_0_iff)
  ultimately show ?thesis
    using Number_toString_exact [OF a]
    by (simp add: nanoseconds_def string_of_int_def a_def)
qed

section \<open>Grouping into streams\<close>












section \<open>The timestamp text sent to the sink\<close>

text \<open>
  For a timestamp less than \<open>10 ^ 15\<close> milliseconds away from the epoch the text is exact
  (\<open>nanoseconds_exact\<close>); here for a recent one. From \<open>10 ^ 15\<close> milliseconds on, in the
  year 33658, the product reaches \<open>10 ^ 21\<close> and \<^verbatim>\<open>toString\<close> writes it with an exponent.
\<close>

lemma nanoseconds_recent: "nanoseconds (Date 1700000000123) = ''1700000000123000000''"
  by (simp add: nanoseconds_exact string_of_int_def string_of_nat.simps digit_char_def)

lemma string_of_nat_digit: "n < 10 \<Longrightarrow> string_of_nat n = [digit_char n]"
  by (simp add: string_of_nat.simps)

lemma length_string_of_nat_1e21: "length (string_of_nat 1000000000000000000000) = 22"
  by (simp add: string_of_nat.simps)

lemma round_to_double_1e21: "round_to_double 1000000000000000000000 = 1000000000000000000000"
  by (simp add: round_to_double_def Let_def bit_length.simps)

lemma shortest_1e21: "shortest 1000000000000000000000 = (1, 21)"
  by (simp add: shortest_def candidates_def length_string_of_nat_1e21 upt_rec [of _ 23]
      round_to_double_def Let_def bit_length.simps better_def distance_def string_of_nat.simps)

lemma nanoseconds_1e15: "nanoseconds (Date 1000000000000000) = ''1e+21''"
proof -
  have one: "string_of_nat (Suc 0) = ''1''"
    by (simp add: string_of_nat_digit digit_char_def)
  have "string_of_nat 2 = ''2''"
    by (simp add: string_of_nat_digit digit_char_def)
  then have "string_of_nat 21 = ''21''"
    by (simp add: string_of_nat.simps [of 21] digit_char_def)
  with one have "Number_toString 1000000000000000000000 = ''1e+21''"
    unfolding Number_toString_def shortest_1e21 Let_def by simp
  then show ?thesis
    by (simp add: nanoseconds_def round_to_double_1e21)
qed

lemma digit_char_digit:
  assumes "n < 10"
  shows "digit_char n \<in> set ''0123456789''"
proof -
  have len: "n < length ''0123456789''"
    using assms by simp
  have "digit_char n = (''0123456789'' @ ''abcdef'') ! n"
    using assms by (simp add: digit_char_def)
  also have "\<dots> = ''0123456789'' ! n"
    using len by (simp only: nth_append if_True)
  finally show ?thesis
    using nth_mem [OF len] by (simp only:)
qed

lemma string_of_nat_digits: "set (string_of_nat n) \<subseteq> set ''0123456789''"
proof (induction n rule: string_of_nat.induct)
  case (1 n)
  show ?case
  proof (cases "n < 10")
    case True
    then show ?thesis
      using digit_char_digit [of n] by (simp add: string_of_nat.simps [of n])
  next
    case False
    with 1 have "set (string_of_nat (n div 10)) \<subseteq> set ''0123456789''"
      by simp
    moreover have "digit_char (n mod 10) \<in> set ''0123456789''"
      by (rule digit_char_digit) simp
    ultimately show ?thesis
      using False by (simp add: string_of_nat.simps [of n])
  qed
qed

text \<open>The text \<open>NaN\<close> is not the decimal text of an integer.\<close>

lemma string_of_int_not_NaN: "string_of_int i \<noteq> ''NaN''"
proof
  assume "string_of_int i = ''NaN''"
  then have "CHR ''a'' \<in> set (string_of_int i)"
    by simp
  then have "CHR ''a'' \<in> set (string_of_nat (nat \<bar>i\<bar>))"
    by (simp add: string_of_int_def split: if_splits)
  with string_of_nat_digits [of "nat \<bar>i\<bar>"] show False
    by auto
qed

lemma convertToLokiFormat_single:
  "convertToLokiFormat now [e] = [\<lparr> stream = streamKey e, values = stream_values now [e] \<rparr>]"
  by (simp add: convertToLokiFormat_def group_entry_def Map_has_def Map_set_new_def Map_get_push_def
      Let_def)

text \<open>
  C8. The timestamp text is not the decimal text of an integer for every entry. The
  payload with the message \<open>x\<close> and the timestamp \<open>garbage\<close>, on the topic
  \<open>iot/d1/logs\<close>, is normalised to an entry whose timestamp is the invalid date that the
  \<^verbatim>\<open>Date\<close> constructor makes of the text \<open>garbage\<close>; an invalid date is truthy, so
  nothing replaces it on the way. \<open>pushLog\<close> accepts the entry, and in the request of the flush its
  timestamp text is \<open>NaN\<close>, the product of \<^verbatim>\<open>getTime()\<close>, which is \<open>NaN\<close>, by 1000000.
  No integer has this decimal text.
\<close>

theorem unparsable_timestamp_sent_as_NaN:
  "normalize (example_parse payload_timestamp_garbage) example_Date_constructor (Date 5) (Date 6)
     ''iot/d1/logs'' (JSON_stringify_object payload_timestamp_garbage)
     = Inr entry_timestamp_garbage
   \<and> (case fst (pushLog (Some 1) entry_timestamp_garbage (Date 7) new_LokiService) of
         Some fl \<Rightarrow> map values (lokiRequest fl)
       | None \<Rightarrow> [])
       = [[(''NaN'', JStr ''x'')]]
   \<and> (\<forall>i. string_of_int i \<noteq> ''NaN'')"
proof -
  have "normalize (example_parse payload_timestamp_garbage) example_Date_constructor (Date 5) (Date 6)
     ''iot/d1/logs'' (JSON_stringify_object payload_timestamp_garbage)
     = Inr entry_timestamp_garbage"
    by (simp add: normalize_def example_parse_def catch_def continue_def normalizeMessage_def
        payload_timestamp_garbage_def get_property_def mapToLogSeverity_def inferMessageType_def
        content_scan_def keyword_scan_def toLowerCase_def toLowerCase_char_def startsWith_def
        QuoteJSONString_def QuoteJSONChar_def example_Date_constructor_def
        extractDeviceIdFromTopic_def convertToLogEntry_def entry_timestamp_garbage_def Let_def)
  moreover have "(case fst (pushLog (Some 1) entry_timestamp_garbage (Date 7) new_LokiService) of
         Some fl \<Rightarrow> map values (lokiRequest fl)
       | None \<Rightarrow> [])
       = [[(''NaN'', JStr ''x'')]]"
    by (simp add: pushLog_def new_LokiService_def invalid_entry_def entry_timestamp_garbage_def
        with_timestamp_def push_def buffer_def reaches_def flushLogs_def Let_def
        convertToLokiFormat_single stream_values_def nanoseconds_def)
  ultimately show ?thesis
    using string_of_int_not_NaN by simp
qed

end
